theory Spec2Isabelle
  imports Complex_Main "HOL-Library.Product_Lexorder" "HOL-Library.Multiset"
begin

section \<open>Data model\<close>

text \<open>
  The C structs of the unwrapping pipeline. An array of \<open>float\<close> pairs (\<open>uvs[2*v]\<close>,
  \<open>uvs[2*v+1]\<close>) is a list of pairs, an array of index triples (\<open>triangles[3*f+j]\<close>) a
  list of triples, and the two flat \<open>int\<close> arrays of the topology (\<open>edges[2*e+k]\<close>,
  \<open>edge_faces[2*e+k]\<close>) are lists of pairs. Vertex indices and counts are natural
  numbers; face indices stored in \<open>edge_faces\<close> and island ids are \<open>int\<close>, because the
  code uses \<open>-1\<close> there for "none". \<open>float\<close> and \<open>double\<close> values are real numbers:
  rounding, infinities and NaN are outside the model.
\<close>

record Mesh =
  num_vertices :: nat
  num_triangles :: nat
  vertices :: "(real \<times> real \<times> real) list"
  triangles :: "(nat \<times> nat \<times> nat) list"
  uvs :: "(real \<times> real) list"

record TopologyInfo =
  num_edges :: nat
  edges :: "(nat \<times> nat) list"
  edge_faces :: "(int \<times> int) list"

record UnwrapResult =
  num_islands :: int
  face_island_ids :: "int list"

text \<open>
  Modelled from the spec: \<open>min_float\<close> and \<open>max_float\<close> belong to \<open>math_utils\<close>, which is
  not among the sources; they are the minimum and the maximum of two numbers.
\<close>

definition min_float :: "real \<Rightarrow> real \<Rightarrow> real" where
  "min_float a b = (if a < b then a else b)"

definition max_float :: "real \<Rightarrow> real \<Rightarrow> real" where
  "max_float a b = (if a > b then a else b)"

text \<open>The constant \<open>FLT_MAX\<close> of \<open>float.h\<close>, the largest finite single-precision number.\<close>

definition FLT_MAX :: real where
  "FLT_MAX = 340282346638528859811704183484516925440"

section \<open>Topology builder (topology.cpp)\<close>

text \<open>
  \<open>struct Edge\<close> stores the smaller vertex first; its \<open>operator<\<close> is the lexicographic
  order on the pair, which is the order of pairs in this theory. \<open>struct EdgeInfo\<close> is the
  pair \<open>(face0, face1)\<close>, both \<open>-1\<close> at construction.
\<close>

definition Edge :: "nat \<Rightarrow> nat \<Rightarrow> nat \<times> nat" where
  "Edge a b = (if a < b then (a, b) else (b, a))"

text \<open>
  The \<open>std::map<Edge, EdgeInfo>\<close> is an association list kept in key order. One pass of
  the inner loop body: a new edge gets \<open>face0 = f\<close>, an edge already present gets
  \<open>face1 = f\<close>.
\<close>

definition edge_map_insert :: "int \<Rightarrow> nat \<times> nat \<Rightarrow> ((nat \<times> nat) \<times> int \<times> int) list
    \<Rightarrow> ((nat \<times> nat) \<times> int \<times> int) list" where
  "edge_map_insert f e edge_map =
     (case map_of edge_map e of
        None \<Rightarrow> insort_key fst (e, (f, -1)) edge_map
      | Some info \<Rightarrow> map (\<lambda>(k, i). if k = e then (k, (fst i, f)) else (k, i)) edge_map)"

definition triangle_edges :: "nat \<times> nat \<times> nat \<Rightarrow> (nat \<times> nat) list" where
  "triangle_edges t = (case t of (v0, v1, v2) \<Rightarrow> [Edge v0 v1, Edge v1 v2, Edge v2 v0])"

definition collect_edges :: "Mesh \<Rightarrow> ((nat \<times> nat) \<times> int \<times> int) list" where
  "collect_edges mesh =
     fold (\<lambda>f edge_map. fold (edge_map_insert (int f)) (triangle_edges (triangles mesh ! f)) edge_map)
       [0..<num_triangles mesh] []"

text \<open>
  The mesh pointer may be null (\<open>None\<close>); the result is null (\<open>None\<close>) or the topology.
  Allocation failure is not modelled.
\<close>

definition build_topology :: "Mesh option \<Rightarrow> TopologyInfo option" where
  "build_topology mesh_ptr =
     (case mesh_ptr of
        None \<Rightarrow> None
      | Some mesh \<Rightarrow>
          let edge_map = collect_edges mesh
          in Some \<lparr>num_edges = length edge_map,
                   edges = map fst edge_map,
                   edge_faces = map snd edge_map\<rparr>)"

section \<open>Unit-square normalization (lscm.cpp)\<close>

text \<open>The literal \<open>1e-6f\<close>, read as a real number.\<close>

definition range_eps :: real where
  "range_eps = 1 / 1000000"

text \<open>The bounding-box loop: the four running extremes start at \<open>\<plusminus>FLT_MAX\<close>.\<close>

definition uv_bounds :: "(real \<times> real) list \<Rightarrow> real \<times> real \<times> real \<times> real" where
  "uv_bounds uv =
     fold (\<lambda>p b. case b of (min_u, max_u, min_v, max_v) \<Rightarrow>
             (min_float min_u (fst p), max_float max_u (fst p),
              min_float min_v (snd p), max_float max_v (snd p)))
       uv (FLT_MAX, - FLT_MAX, FLT_MAX, - FLT_MAX)"

text \<open>
  The array and its length \<open>num_verts\<close> are one list; a null array is not modelled, an
  empty one is returned as it is.
\<close>

definition normalize_uvs_to_unit_square :: "(real \<times> real) list \<Rightarrow> (real \<times> real) list" where
  "normalize_uvs_to_unit_square uv =
     (if uv = [] then uv
      else case uv_bounds uv of (min_u, max_u, min_v, max_v) \<Rightarrow>
        let u_range = max_u - min_u;
            v_range = max_v - min_v;
            u_range = (if u_range < range_eps then 1 else u_range);
            v_range = (if v_range < range_eps then 1 else v_range);
            scale = 1 / max_float u_range v_range
        in map (\<lambda>p. ((fst p - min_u) * scale, (snd p - min_v) * scale)) uv)"

section \<open>Seam detection (seam_detection.cpp)\<close>

text \<open>
  A loop whose body can fail: the state is threaded through the list and the first
  failure ends the run. A failure (\<open>None\<close>) stands for an access outside an array with an
  index read from the data, which is undefined behaviour in the source.
\<close>

fun fold_option :: "('a \<Rightarrow> 's \<Rightarrow> 's option) \<Rightarrow> 'a list \<Rightarrow> 's \<Rightarrow> 's option" where
  "fold_option f [] s = Some s"
| "fold_option f (x # xs) s = (case f x s of None \<Rightarrow> None | Some s' \<Rightarrow> fold_option f xs s')"

text \<open>A face index that may be used on an array of \<open>F\<close> faces.\<close>

definition in_faces :: "nat \<Rightarrow> int \<Rightarrow> bool" where
  "in_faces F f = (0 \<le> f \<and> f < int F)"

text \<open>\<open>xss[i].push_back(x)\<close> on a vector of vectors.\<close>

definition push_at :: "nat \<Rightarrow> 'a \<Rightarrow> 'a list list \<Rightarrow> 'a list list" where
  "push_at i x xss = xss[i := xss ! i @ [x]]"

text \<open>Step 1, one edge: an interior edge joins its two faces in the dual graph.\<close>

definition dual_graph_step :: "nat \<Rightarrow> TopologyInfo \<Rightarrow> nat \<Rightarrow> nat list list \<times> nat list list
    \<Rightarrow> (nat list list \<times> nat list list) option" where
  "dual_graph_step F topo e g =
     (case g of (dual_adj, dual_edge_indices) \<Rightarrow>
        let f0 = fst (edge_faces topo ! e);
            f1 = snd (edge_faces topo ! e)
        in if f0 \<noteq> -1 \<and> f1 \<noteq> -1 then
             if in_faces F f0 \<and> in_faces F f1 then
               let dual_adj = push_at (nat f0) (nat f1) dual_adj;
                   dual_edge_indices = push_at (nat f0) e dual_edge_indices;
                   dual_adj = push_at (nat f1) (nat f0) dual_adj;
                   dual_edge_indices = push_at (nat f1) e dual_edge_indices
               in Some (dual_adj, dual_edge_indices)
             else None
           else Some g)"

definition dual_graph :: "nat \<Rightarrow> TopologyInfo \<Rightarrow> (nat list list \<times> nat list list) option" where
  "dual_graph F topo =
     fold_option (dual_graph_step F topo) [0..<num_edges topo] (replicate F [], replicate F [])"

text \<open>Step 2: the breadth-first spanning forest. \<open>std::queue\<close> is a list, front first.\<close>

record bfs_state =
  visited :: "bool list"
  queue :: "nat list"
  tree_edges :: "nat set"

definition visit_neighbour :: "nat list list \<Rightarrow> nat list list \<Rightarrow> nat \<Rightarrow> nat \<Rightarrow> bfs_state
    \<Rightarrow> bfs_state option" where
  "visit_neighbour dual_adj dual_edge_indices u i s =
     (let v = dual_adj ! u ! i;
          edge_idx = dual_edge_indices ! u ! i
      in if v < length (visited s) then
           if \<not> visited s ! v then
             Some (s\<lparr>visited := (visited s)[v := True],
                     tree_edges := insert edge_idx (tree_edges s),
                     queue := queue s @ [v]\<rparr>)
           else Some s
         else None)"

definition unvisited :: "bfs_state \<Rightarrow> nat" where
  "unvisited s = length (filter Not (visited s))"

lemma filter_Not_update:
  "v < length xs \<Longrightarrow> \<not> xs ! v \<Longrightarrow> Suc (length (filter Not (xs[v := True]))) = length (filter Not xs)"
proof (induction xs arbitrary: v)
  case Nil
  then show ?case by simp
next
  case (Cons x xs)
  then show ?case by (cases v) auto
qed

lemma visit_neighbour_measure:
  "visit_neighbour da de u i s = Some s' \<Longrightarrow>
     unvisited s' + length (queue s') = unvisited s + length (queue s)"
  using filter_Not_update[of "da ! u ! i" "visited s"]
  by (auto simp: visit_neighbour_def unvisited_def Let_def split: if_splits)

lemma fold_visit_measure:
  "fold_option (visit_neighbour da de u) is s = Some s' \<Longrightarrow>
     unvisited s' + length (queue s') = unvisited s + length (queue s)"
proof (induction "is" arbitrary: s)
  case Nil
  then show ?case by simp
next
  case (Cons i "is")
  then show ?case
    by (auto split: option.splits dest!: visit_neighbour_measure)
qed

function bfs_loop :: "nat list list \<Rightarrow> nat list list \<Rightarrow> bfs_state \<Rightarrow> bfs_state option" where
  "bfs_loop dual_adj dual_edge_indices s =
     (case queue s of
        [] \<Rightarrow> Some s
      | u # rest \<Rightarrow>
          if u < length dual_adj then
            case fold_option (visit_neighbour dual_adj dual_edge_indices u)
                   [0..<length (dual_adj ! u)] (s\<lparr>queue := rest\<rparr>) of
              None \<Rightarrow> None
            | Some s' \<Rightarrow> bfs_loop dual_adj dual_edge_indices s'
          else None)"
  by pat_completeness auto
termination
proof (relation "measure (\<lambda>(da, de, s). unvisited s + length (queue s))", goal_cases)
  case 1
  then show ?case by simp
next
  case (2 dual_adj dual_edge_indices s u rest s')
  from fold_visit_measure[OF 2(3)] 2(1) show ?case
    by (simp add: unvisited_def)
qed


declare bfs_loop.simps [simp del]

text \<open>One pass of the loop over start nodes.\<close>

definition bfs_from :: "nat list list \<Rightarrow> nat list list \<Rightarrow> nat \<Rightarrow> bfs_state \<Rightarrow> bfs_state option" where
  "bfs_from dual_adj dual_edge_indices start_node s =
     (if visited s ! start_node then Some s
      else bfs_loop dual_adj dual_edge_indices
             (s\<lparr>queue := queue s @ [start_node],
                 visited := (visited s)[start_node := True]\<rparr>))"

definition spanning_tree :: "nat \<Rightarrow> nat list list \<Rightarrow> nat list list \<Rightarrow> bfs_state option" where
  "spanning_tree F dual_adj dual_edge_indices =
     fold_option (bfs_from dual_adj dual_edge_indices) [0..<F]
       \<lparr>visited = replicate F False, queue = [], tree_edges = {}\<rparr>"

text \<open>Step 3: a mesh is closed when no edge lacks its second face.\<close>

definition num_boundary_edges :: "TopologyInfo \<Rightarrow> nat" where
  "num_boundary_edges topo =
     length (filter (\<lambda>e. snd (edge_faces topo ! e) = -1) [0..<num_edges topo])"

definition is_closed_mesh :: "TopologyInfo \<Rightarrow> bool" where
  "is_closed_mesh topo = (num_boundary_edges topo = 0)"

text \<open>The priority of an edge: the number of edges at its first endpoint plus the number at
  its second.\<close>

definition vertex_degree :: "TopologyInfo \<Rightarrow> nat \<Rightarrow> nat" where
  "vertex_degree topo v =
     length (filter (\<lambda>e2. fst (edges topo ! e2) = v \<or> snd (edges topo ! e2) = v)
               [0..<num_edges topo])"

definition edge_priority :: "TopologyInfo \<Rightarrow> nat \<Rightarrow> nat" where
  "edge_priority topo e =
     vertex_degree topo (fst (edges topo ! e)) + vertex_degree topo (snd (edges topo ! e))"

definition non_tree_edges_closed :: "TopologyInfo \<Rightarrow> nat set \<Rightarrow> (nat \<times> nat) list" where
  "non_tree_edges_closed topo tree =
     map (\<lambda>e. (e, edge_priority topo e)) (filter (\<lambda>e. e \<notin> tree) [0..<num_edges topo])"

definition non_tree_edges_open :: "TopologyInfo \<Rightarrow> nat set \<Rightarrow> (nat \<times> nat) list" where
  "non_tree_edges_open topo tree =
     map (\<lambda>e. (e, edge_priority topo e))
       (filter (\<lambda>e. \<not> (snd (edge_faces topo ! e) = -1) \<and> e \<notin> tree) [0..<num_edges topo])"

definition target_seams_closed :: "nat \<Rightarrow> nat \<Rightarrow> nat" where
  "target_seams_closed F n =
     (if F \<le> 20 then n
      else if F \<le> 70 then min (max 1 (n div 3)) 2
      else min (max 1 (n div 14)) 5)"

definition target_seams_open :: "nat \<Rightarrow> nat" where
  "target_seams_open n = min (max 1 (n div 3)) 2"

text \<open>
  The first \<open>min(target_seams, size)\<close> entries of the sorted candidates go into the
  \<open>std::set\<close> of seams, which is copied out in ascending order.
\<close>

definition select_seams :: "nat \<Rightarrow> (nat \<times> nat) list \<Rightarrow> nat list" where
  "select_seams target_seams non_tree_edges =
     sorted_list_of_set
       (set (map fst (take (min target_seams (length non_tree_edges)) non_tree_edges)))"

text \<open>
  \<open>detect_seams\<close>. The pointer arguments are taken to be non-null; \<open>angle_threshold\<close> is
  not used by the source. \<open>std::sort\<close> with the comparator \<open>a.second < b.second\<close> is the
  parameter \<open>srt\<close>: the standard fixes the result only up to the order of entries of equal
  priority. The result is the array of seams (\<open>num_seams_out\<close> is its length).
\<close>

definition detect_seams :: "((nat \<times> nat) list \<Rightarrow> (nat \<times> nat) list) \<Rightarrow> Mesh \<Rightarrow> TopologyInfo \<Rightarrow> real
    \<Rightarrow> nat list option" where
  "detect_seams srt mesh topo angle_threshold =
     (let F = num_triangles mesh in
      case dual_graph F topo of
        None \<Rightarrow> None
      | Some (dual_adj, dual_edge_indices) \<Rightarrow>
          case spanning_tree F dual_adj dual_edge_indices of
            None \<Rightarrow> None
          | Some s \<Rightarrow>
              if is_closed_mesh topo then
                let non_tree_edges = srt (non_tree_edges_closed topo (tree_edges s))
                in Some (select_seams (target_seams_closed F (length non_tree_edges)) non_tree_edges)
              else
                let non_tree_edges = srt (non_tree_edges_open topo (tree_edges s))
                in Some (select_seams (target_seams_open (length non_tree_edges)) non_tree_edges))"

section \<open>Island extraction (unwrap.cpp)\<close>

text \<open>
  Step 2 of \<open>extract_islands\<close>, one edge: an edge that is not a seam and has two faces makes
  the faces neighbours. \<open>seam_edges\<close> is the array of seam edge indices; membership in the
  \<open>std::set\<close> built from it is membership in the list.
\<close>

definition island_adjacency_step :: "nat \<Rightarrow> TopologyInfo \<Rightarrow> nat list \<Rightarrow> nat \<Rightarrow> nat list list
    \<Rightarrow> nat list list option" where
  "island_adjacency_step F topo seam_edges e adj =
     (if e \<in> set seam_edges then Some adj
      else
        let f0 = fst (edge_faces topo ! e);
            f1 = snd (edge_faces topo ! e)
        in if f0 \<noteq> -1 \<and> f1 \<noteq> -1 then
             if in_faces F f0 \<and> in_faces F f1 then
               Some (push_at (nat f1) (nat f0) (push_at (nat f0) (nat f1) adj))
             else None
           else Some adj)"

definition island_adjacency :: "nat \<Rightarrow> TopologyInfo \<Rightarrow> nat list \<Rightarrow> nat list list option" where
  "island_adjacency F topo seam_edges =
     fold_option (island_adjacency_step F topo seam_edges) [0..<num_edges topo] (replicate F [])"

text \<open>
  Step 3, the body of \<open>for (int v : adj[u])\<close>: an unlabelled neighbour gets the current
  island id and joins the queue. The state is \<open>(ids, q)\<close>, with \<open>ids\<close> the array
  \<open>face_island_ids\<close>.
\<close>

definition label_neighbour :: "nat \<Rightarrow> nat \<Rightarrow> int list \<times> nat list \<Rightarrow> (int list \<times> nat list) option" where
  "label_neighbour current_island_id v st =
     (case st of (ids, q) \<Rightarrow>
        if v < length ids then
          if ids ! v = -1 then
            Some (ids[v := int current_island_id], q @ [v])
          else Some st
        else None)"

definition unlabelled :: "int list \<Rightarrow> nat" where
  "unlabelled ids = length (filter (\<lambda>i. i = -1) ids)"

lemma unlabelled_update:
  "v < length ids \<Longrightarrow> ids ! v = -1 \<Longrightarrow> c \<noteq> -1 \<Longrightarrow>
     Suc (unlabelled (ids[v := c])) = unlabelled ids"
  unfolding unlabelled_def
proof (induction ids arbitrary: v)
  case Nil
  then show ?case by simp
next
  case (Cons x xs)
  then show ?case by (cases v) auto
qed

lemma label_neighbour_measure:
  assumes "label_neighbour c v (ids, q) = Some (ids', q')"
  shows "unlabelled ids' + length q' = unlabelled ids + length q \<and> length q \<le> length q'"
  using assms unlabelled_update[of v ids "int c"]
  by (auto simp: label_neighbour_def split: if_splits)

lemma fold_label_measure:
  "fold_option (label_neighbour c) vs (ids, q) = Some (ids', q') \<Longrightarrow>
     unlabelled ids' + length q' = unlabelled ids + length q \<and> length q \<le> length q'"
proof (induction vs arbitrary: ids q)
  case Nil
  then show ?case by simp
next
  case (Cons v vs)
  from Cons.prems obtain ids1 q1 where
    s1: "label_neighbour c v (ids, q) = Some (ids1, q1)"
    and r: "fold_option (label_neighbour c) vs (ids1, q1) = Some (ids', q')"
    by (auto split: option.splits)
  from label_neighbour_measure[OF s1] Cons.IH[OF r] show ?case by simp
qed

text \<open>The \<open>while (head < q.size())\<close> loop of one island.\<close>

function island_bfs :: "nat list list \<Rightarrow> nat \<Rightarrow> int list \<Rightarrow> nat list \<Rightarrow> nat \<Rightarrow> int list option" where
  "island_bfs adj current_island_id ids q head =
     (if head < length q then
        let u = q ! head in
        if u < length adj then
          case fold_option (label_neighbour current_island_id) (adj ! u) (ids, q) of
            None \<Rightarrow> None
          | Some (ids', q') \<Rightarrow>
              island_bfs adj current_island_id ids' q' (head + 1)
        else None
      else Some ids)"
  by pat_completeness auto
termination
proof (relation "measure (\<lambda>(adj, c, ids, q, head). unlabelled ids + length q - head)", goal_cases)
  case 1
  then show ?case by simp
next
  case (2 adj c ids q head u st ids' q')
  from fold_label_measure[of c "adj ! u" ids q ids' q'] 2 show ?case by simp
qed

declare island_bfs.simps [simp del]

text \<open>One pass of the loop over start faces; the state is \<open>(ids, current_island_id)\<close>.\<close>

definition island_from :: "nat list list \<Rightarrow> nat \<Rightarrow> int list \<times> nat \<Rightarrow> (int list \<times> nat) option" where
  "island_from adj start_face st =
     (case st of (ids, current_island_id) \<Rightarrow>
        if ids ! start_face \<noteq> -1 then Some st
        else
          case island_bfs adj current_island_id
                 (ids[start_face := int current_island_id]) [start_face] 0 of
            None \<Rightarrow> None
          | Some ids' \<Rightarrow> Some (ids', current_island_id + 1))"

text \<open>
  \<open>extract_islands\<close> returns the array of island ids and, through \<open>num_islands_out\<close>, the
  number of islands.
\<close>

definition extract_islands :: "Mesh \<Rightarrow> TopologyInfo \<Rightarrow> nat list \<Rightarrow> (int list \<times> nat) option" where
  "extract_islands mesh topo seam_edges =
     (let F = num_triangles mesh in
      case island_adjacency F topo seam_edges of
        None \<Rightarrow> None
      | Some adj \<Rightarrow> fold_option (island_from adj) [0..<F] (replicate F (-1), 0))"

section \<open>Island packing (packing.cpp)\<close>

text \<open>
  \<open>struct Island\<close>. The field \<open>id\<close> is called \<open>island_id\<close> here. The vector of islands is
  value-initialized, so the fields the first loop does not set start at zero.
\<close>

record Island =
  island_id :: nat
  min_u :: real
  max_u :: real
  min_v :: real
  max_v :: real
  width :: real
  height :: real
  target_x :: real
  target_y :: real
  vertex_indices :: "nat list"

definition init_island :: "nat \<Rightarrow> Island" where
  "init_island i =
     \<lparr>island_id = i, min_u = FLT_MAX, max_u = - FLT_MAX, min_v = FLT_MAX, max_v = - FLT_MAX,
      width = 0, height = 0, target_x = 0, target_y = 0, vertex_indices = []\<rparr>"

text \<open>
  Step 1, the body of the loop over the three corners of a face: a vertex that has no
  island yet is assigned to the island of this face, and its UV enlarges that island's
  bounding box. The state is \<open>(vert_to_island, islands)\<close>. Vertex indices read from the
  mesh are used as they are; the theorems assume a mesh whose indices are in range.
\<close>

definition assign_vertex :: "Mesh \<Rightarrow> nat \<Rightarrow> nat \<Rightarrow> int list \<times> Island list \<Rightarrow> int list \<times> Island list" where
  "assign_vertex mesh isl_id v st =
     (case st of (vert_to_island, islands) \<Rightarrow>
        if vert_to_island ! v = -1 then
          let u = fst (uvs mesh ! v);
              v_coord = snd (uvs mesh ! v);
              island = islands ! isl_id
          in (vert_to_island[v := int isl_id],
              islands[isl_id := island
                \<lparr>vertex_indices := vertex_indices island @ [v],
                 min_u := min_float (min_u island) u,
                 max_u := max_float (max_u island) u,
                 min_v := min_float (min_v island) v_coord,
                 max_v := max_float (max_v island) v_coord\<rparr>])
        else st)"

definition face_vertices :: "Mesh \<Rightarrow> nat \<Rightarrow> nat list" where
  "face_vertices mesh f = (case triangles mesh ! f of (v0, v1, v2) \<Rightarrow> [v0, v1, v2])"

text \<open>A face takes part when its island id is one of \<open>0, ..., num_islands - 1\<close>.\<close>

definition valid_island_id :: "UnwrapResult \<Rightarrow> nat \<Rightarrow> bool" where
  "valid_island_id result f =
     (\<not> (face_island_ids result ! f < 0 \<or> face_island_ids result ! f \<ge> num_islands result))"

definition collect_face :: "Mesh \<Rightarrow> UnwrapResult \<Rightarrow> nat \<Rightarrow> int list \<times> Island list
    \<Rightarrow> int list \<times> Island list" where
  "collect_face mesh result f st =
     (if valid_island_id result f then
        fold (assign_vertex mesh (nat (face_island_ids result ! f))) (face_vertices mesh f) st
      else st)"

definition collect_islands :: "Mesh \<Rightarrow> UnwrapResult \<Rightarrow> int list \<times> Island list" where
  "collect_islands mesh result =
     fold (collect_face mesh result) [0..<num_triangles mesh]
       (replicate (num_vertices mesh) (-1), map init_island [0..<nat (num_islands result)])"

text \<open>The loop "Normalize dimensions".\<close>

definition set_dimensions :: "Island \<Rightarrow> Island" where
  "set_dimensions island =
     (if min_u island = FLT_MAX then island\<lparr>width := 0, height := 0\<rparr>
      else island\<lparr>width := max_u island - min_u island, height := max_v island - min_v island\<rparr>)"

text \<open>Step 3: the state of the shelf loop and one placement.\<close>

record shelf_state =
  current_x :: real
  current_y :: real
  shelf_height :: real
  packed_max_w :: real
  packed_max_h :: real

definition map_width :: real where
  "map_width = 1"

definition starts_new_shelf :: "Island \<Rightarrow> shelf_state \<Rightarrow> bool" where
  "starts_new_shelf island s = (current_x s + width island > map_width \<and> current_x s > 0)"

definition place_island :: "real \<Rightarrow> Island \<Rightarrow> shelf_state \<Rightarrow> Island \<times> shelf_state" where
  "place_island margin island s =
     (let s = (if starts_new_shelf island s
               then s\<lparr>current_y := current_y s + shelf_height s + margin,
                      current_x := 0, shelf_height := 0\<rparr>
               else s);
          island = island\<lparr>target_x := current_x s, target_y := current_y s\<rparr>;
          s = s\<lparr>current_x := current_x s + width island + margin,
                 shelf_height := max_float (shelf_height s) (height island)\<rparr>;
          s = s\<lparr>packed_max_w := max_float (packed_max_w s) (target_x island + width island),
                 packed_max_h := max_float (packed_max_h s) (target_y island + height island)\<rparr>
      in (island, s))"

fun shelf_pack :: "real \<Rightarrow> Island list \<Rightarrow> shelf_state \<Rightarrow> Island list \<times> shelf_state" where
  "shelf_pack margin [] s = ([], s)"
| "shelf_pack margin (island # rest) s =
     (if width island = 0 then
        (case shelf_pack margin rest s of (placed, s') \<Rightarrow> (island # placed, s'))
      else
        (case place_island margin island s of (island', s1) \<Rightarrow>
           (case shelf_pack margin rest s1 of (placed, s') \<Rightarrow> (island' # placed, s'))))"

definition init_shelf :: shelf_state where
  "init_shelf = \<lparr>current_x = 0, current_y = 0, shelf_height = 0,
                 packed_max_w = 0, packed_max_h = 0\<rparr>"

text \<open>Step 4: every vertex of a placed island is moved by the island's offset.\<close>

definition move_vertex :: "real \<Rightarrow> real \<Rightarrow> nat \<Rightarrow> (real \<times> real) list \<Rightarrow> (real \<times> real) list" where
  "move_vertex offset_x offset_y v uv = uv[v := (fst (uv ! v) + offset_x, snd (uv ! v) + offset_y)]"

definition move_island :: "Island \<Rightarrow> (real \<times> real) list \<Rightarrow> (real \<times> real) list" where
  "move_island island uv =
     (if width island = 0 then uv
      else
        let offset_x = target_x island - min_u island;
            offset_y = target_y island - min_v island
        in fold (move_vertex offset_x offset_y) (vertex_indices island) uv)"

text \<open>Step 5: the global scale and its application to every vertex.\<close>

definition pack_scale :: "shelf_state \<Rightarrow> real" where
  "pack_scale s =
     (if packed_max_w s = 0 then 1 else 1 / max_float (packed_max_w s) (packed_max_h s))"

definition scale_vertex :: "real \<Rightarrow> nat \<Rightarrow> (real \<times> real) list \<Rightarrow> (real \<times> real) list" where
  "scale_vertex scale i uv = uv[i := (fst (uv ! i) * scale, snd (uv ! i) * scale)]"

text \<open>
  The islands after steps 1 to 3, in their sorted order, with the final shelf state.
  \<open>std::sort\<close> with the comparator \<open>a.height > b.height\<close> is the parameter \<open>srt\<close>.
\<close>

definition packed_islands :: "(Island list \<Rightarrow> Island list) \<Rightarrow> Mesh \<Rightarrow> UnwrapResult \<Rightarrow> real
    \<Rightarrow> Island list \<times> shelf_state" where
  "packed_islands srt mesh result margin =
     shelf_pack margin (srt (map set_dimensions (snd (collect_islands mesh result)))) init_shelf"

text \<open>
  \<open>pack_uv_islands\<close> returns the mesh with its new UV array. The pointer arguments are
  taken to be non-null.
\<close>

definition pack_uv_islands :: "(Island list \<Rightarrow> Island list) \<Rightarrow> Mesh \<Rightarrow> UnwrapResult \<Rightarrow> real \<Rightarrow> Mesh" where
  "pack_uv_islands srt mesh result margin =
     (if num_islands result \<le> 1 then mesh
      else
        case packed_islands srt mesh result margin of (islands, s) \<Rightarrow>
          let uv = fold move_island islands (uvs mesh);
              uv = fold (scale_vertex (pack_scale s)) [0..<num_vertices mesh] uv
          in mesh\<lparr>uvs := uv\<rparr>)"

section \<open>Conformal parameterization (lscm.cpp)\<close>

text \<open>
  Step 1, the local vertex mapping: \<open>global_to_local\<close> is the \<open>std::map\<close>, \<open>local_to_global\<close>
  the vector. \<open>face_indices\<close> is the array of the island's faces (\<open>num_faces\<close> is its
  length).
\<close>

definition add_local_vertex :: "nat \<Rightarrow> (nat \<rightharpoonup> nat) \<times> nat list \<Rightarrow> (nat \<rightharpoonup> nat) \<times> nat list" where
  "add_local_vertex v_global st =
     (case st of (global_to_local, local_to_global) \<Rightarrow>
        if global_to_local v_global = None then
          (global_to_local(v_global \<mapsto> length local_to_global), local_to_global @ [v_global])
        else st)"

definition local_vertex_map :: "Mesh \<Rightarrow> nat list \<Rightarrow> (nat \<rightharpoonup> nat) \<times> nat list" where
  "local_vertex_map mesh face_indices =
     fold (\<lambda>f st. fold add_local_vertex (face_vertices mesh f) st) face_indices (Map.empty, [])"

text \<open>\<open>global_to_local[v]\<close>: \<open>operator[]\<close> of \<open>std::map\<close> yields 0 for a key that is absent.\<close>

definition map_at :: "(nat \<rightharpoonup> nat) \<Rightarrow> nat \<Rightarrow> nat" where
  "map_at m v = (case m v of None \<Rightarrow> 0 | Some i \<Rightarrow> i)"

text \<open>
  \<open>find_boundary_vertices\<close>: \<open>edge_counts\<close> counts how often each edge occurs among the
  island's faces; the endpoints of the edges that occur once form a \<open>std::set\<close>, which is
  returned in ascending order.
\<close>

definition count_edge :: "nat \<times> nat \<Rightarrow> ((nat \<times> nat) \<times> nat) list \<Rightarrow> ((nat \<times> nat) \<times> nat) list" where
  "count_edge e edge_counts =
     (case map_of edge_counts e of
        None \<Rightarrow> insort_key fst (e, 1) edge_counts
      | Some c \<Rightarrow> map (\<lambda>(k, c). if k = e then (k, c + 1) else (k, c)) edge_counts)"

definition island_edge_counts :: "Mesh \<Rightarrow> nat list \<Rightarrow> ((nat \<times> nat) \<times> nat) list" where
  "island_edge_counts mesh face_indices =
     fold (\<lambda>f edge_counts. fold count_edge (triangle_edges (triangles mesh ! f)) edge_counts)
       face_indices []"

definition find_boundary_vertices :: "Mesh \<Rightarrow> nat list \<Rightarrow> nat list" where
  "find_boundary_vertices mesh face_indices =
     (if face_indices = [] then []
      else sorted_list_of_set
             (set (concat (map (\<lambda>item. if snd item = 1 then [fst (fst item), snd (fst item)] else [])
                             (island_edge_counts mesh face_indices)))))"

text \<open>
  Step 3, the choice of the two pinned vertices. The distance between the positions of two
  vertices of the mesh is the parameter \<open>vertex_distance\<close>: it is computed with the vector functions of
  \<open>math_utils\<close>, which is not among the sources. The state of the search is
  \<open>(max_dist, pinned_idx1, pinned_idx2)\<close>.
\<close>

definition farther_pair :: "(nat \<Rightarrow> nat \<Rightarrow> real) \<Rightarrow> (nat \<rightharpoonup> nat) \<Rightarrow> nat list \<Rightarrow> nat list \<Rightarrow> nat \<Rightarrow> nat
    \<Rightarrow> real \<times> nat \<times> nat \<Rightarrow> real \<times> nat \<times> nat" where
  "farther_pair vertex_distance global_to_local local_to_global boundary_verts i k st =
     (case st of (max_dist, pinned_idx1, pinned_idx2) \<Rightarrow>
        let d = vertex_distance (local_to_global ! map_at global_to_local (boundary_verts ! i))
                     (local_to_global ! map_at global_to_local (boundary_verts ! k))
        in if d > max_dist then
             (d, map_at global_to_local (boundary_verts ! i), map_at global_to_local (boundary_verts ! k))
           else st)"

definition farther_from_first :: "(nat \<Rightarrow> nat \<Rightarrow> real) \<Rightarrow> nat list \<Rightarrow> nat \<Rightarrow> nat
    \<Rightarrow> real \<times> nat \<Rightarrow> real \<times> nat" where
  "farther_from_first vertex_distance local_to_global pinned_idx1 i st =
     (case st of (max_dist, pinned_idx2) \<Rightarrow>
        let d = vertex_distance (local_to_global ! pinned_idx1) (local_to_global ! i)
        in if d > max_dist then (d, i) else st)"

definition choose_pins :: "(nat \<Rightarrow> nat \<Rightarrow> real) \<Rightarrow> Mesh \<Rightarrow> nat list \<Rightarrow> nat \<times> nat" where
  "choose_pins vertex_distance mesh face_indices =
     (case local_vertex_map mesh face_indices of (global_to_local, local_to_global) \<Rightarrow>
        let n = length local_to_global;
            boundary_verts = find_boundary_vertices mesh face_indices;
            num_boundary = length boundary_verts
        in if num_boundary \<ge> 2 then
             (case fold (\<lambda>i st. fold (farther_pair vertex_distance global_to_local local_to_global boundary_verts i)
                                      [i + 1..<num_boundary] st)
                     [0..<num_boundary] (-1, 0, n - 1) of
                (max_dist, pinned_idx1, pinned_idx2) \<Rightarrow>
                  if num_boundary > 200 then
                    (map_at global_to_local (boundary_verts ! 0),
                     map_at global_to_local (boundary_verts ! (num_boundary div 2)))
                  else (pinned_idx1, pinned_idx2))
           else
             (case fold (farther_from_first vertex_distance local_to_global 0) [1..<n] (-1, n - 1) of
                (max_dist, pinned_idx2) \<Rightarrow> (0, pinned_idx2)))"

text \<open>
  A sparse matrix is the list of its stored entries \<open>(row, column, value)\<close>. The matrix
  \<open>A = M\<^sup>T M\<close> of step 2 is the parameter \<open>assemble\<close>: its coefficients come from the vector
  functions of \<open>math_utils\<close> and the product from Eigen, neither of which is among the
  sources. The claims hold for every matrix.
\<close>

type_synonym sparse = "(nat \<times> nat \<times> real) list"

text \<open>Moving the pinned columns to the right-hand side: one pinned variable.\<close>

definition move_column :: "sparse \<Rightarrow> nat \<Rightarrow> real \<Rightarrow> real list \<Rightarrow> real list" where
  "move_column A idx val b =
     fold (\<lambda>entry b. case entry of (r, c, value) \<Rightarrow>
             if c = idx \<and> r \<noteq> idx then b[r := b ! r - value * val] else b) A b"

text \<open>The pruned matrix: a pinned row or column keeps only a diagonal entry, set to 1.\<close>

definition prune_pinned :: "nat list \<Rightarrow> sparse \<Rightarrow> sparse" where
  "prune_pinned pinned_vars A =
     concat (map (\<lambda>entry. case entry of (r, c, value) \<Rightarrow>
                    let r_pin = (r \<in> set pinned_vars);
                        c_pin = (c \<in> set pinned_vars)
                    in if r_pin \<or> c_pin then (if r = c then [(r, c, 1)] else [])
                       else [(r, c, value)]) A)"

definition pinned_vals :: "real list" where
  "pinned_vals = [0, 0, 1, 0]"

definition pinned_system :: "nat \<Rightarrow> sparse \<Rightarrow> nat \<Rightarrow> nat \<Rightarrow> sparse \<times> real list" where
  "pinned_system n A pinned_idx1 pinned_idx2 =
     (let pinned_vars = [pinned_idx1 * 2, pinned_idx1 * 2 + 1, pinned_idx2 * 2, pinned_idx2 * 2 + 1];
          b = replicate (2 * n) 0;
          b = fold (\<lambda>k b. move_column A (pinned_vars ! k) (pinned_vals ! k) b) [0..<4] b;
          A_triplets = prune_pinned pinned_vars A;
          b = fold (\<lambda>k b. b[pinned_vars ! k := pinned_vals ! k]) [0..<4] b
      in (A_triplets, b))"

text \<open>The linear system handed to the solver for an island.\<close>

definition lscm_system :: "(Mesh \<Rightarrow> nat list \<Rightarrow> sparse) \<Rightarrow> (nat \<Rightarrow> nat \<Rightarrow> real) \<Rightarrow> Mesh \<Rightarrow> nat list
    \<Rightarrow> sparse \<times> real list" where
  "lscm_system assemble vertex_distance mesh face_indices =
     (case choose_pins vertex_distance mesh face_indices of (pinned_idx1, pinned_idx2) \<Rightarrow>
        pinned_system (length (snd (local_vertex_map mesh face_indices)))
          (assemble mesh face_indices) pinned_idx1 pinned_idx2)"

text \<open>
  Steps 1 to 4. Eigen's \<open>SparseLU\<close> is the pair of parameters \<open>factorize\<close>
  (\<open>solver.compute\<close>) and \<open>solve\<close> (\<open>solver.solve\<close>), each of which may fail. The result is
  the solved vector \<open>x\<close>, before the UVs are extracted and normalized.
\<close>

definition lscm_solve :: "(nat \<Rightarrow> sparse \<Rightarrow> 'f option) \<Rightarrow> ('f \<Rightarrow> real list \<Rightarrow> real list option)
    \<Rightarrow> (Mesh \<Rightarrow> nat list \<Rightarrow> sparse) \<Rightarrow> (nat \<Rightarrow> nat \<Rightarrow> real) \<Rightarrow> Mesh \<Rightarrow> nat list \<Rightarrow> real list option" where
  "lscm_solve factorize solve assemble vertex_distance mesh face_indices =
     (if face_indices = [] then None
      else
        let n = length (snd (local_vertex_map mesh face_indices)) in
        if n < 3 then None
        else
          case lscm_system assemble vertex_distance mesh face_indices of (A_final, b) \<Rightarrow>
            (case factorize (2 * n) A_final of
               None \<Rightarrow> None
             | Some solver \<Rightarrow>
                 (case solve solver b of
                    None \<Rightarrow> None
                  | Some x \<Rightarrow> Some x)))"

text \<open>Step 5: one UV per local vertex, then the normalization.\<close>

definition extract_uvs :: "nat \<Rightarrow> real list \<Rightarrow> (real \<times> real) list" where
  "extract_uvs n x = map (\<lambda>i. (x ! (i * 2 + 0), x ! (i * 2 + 1))) [0..<n]"

definition lscm_parameterize :: "(nat \<Rightarrow> sparse \<Rightarrow> 'f option) \<Rightarrow> ('f \<Rightarrow> real list \<Rightarrow> real list option)
    \<Rightarrow> (Mesh \<Rightarrow> nat list \<Rightarrow> sparse) \<Rightarrow> (nat \<Rightarrow> nat \<Rightarrow> real) \<Rightarrow> Mesh \<Rightarrow> nat list
    \<Rightarrow> (real \<times> real) list option" where
  "lscm_parameterize factorize solve assemble vertex_distance mesh face_indices =
     (case lscm_solve factorize solve assemble vertex_distance mesh face_indices of
        None \<Rightarrow> None
      | Some x \<Rightarrow>
          Some (normalize_uvs_to_unit_square
                  (extract_uvs (length (snd (local_vertex_map mesh face_indices))) x)))"

section \<open>Well-formed inputs and the vocabulary of the claims\<close>

text \<open>
  The arrays of a topology match its edge count and every face index in \<open>edge_faces\<close> is
  \<open>-1\<close> or the index of a face of the mesh.
\<close>

definition faces_in_range :: "nat \<Rightarrow> TopologyInfo \<Rightarrow> bool" where
  "faces_in_range F topo =
     (length (edge_faces topo) = num_edges topo \<and>
      (\<forall>p\<in>set (edge_faces topo).
         (fst p = -1 \<or> in_faces F (fst p)) \<and> (snd p = -1 \<or> in_faces F (snd p))))"

text \<open>
  The invariant of the data model, which \<open>build_topology\<close> establishes: the first face of
  an edge is always present, the second is a face or \<open>-1\<close> (a boundary edge).
\<close>

definition topology_ok :: "nat \<Rightarrow> TopologyInfo \<Rightarrow> bool" where
  "topology_ok F topo =
     (length (edge_faces topo) = num_edges topo \<and>
      (\<forall>p\<in>set (edge_faces topo). in_faces F (fst p) \<and> (snd p = -1 \<or> in_faces F (snd p))))"

text \<open>
  What \<open>std::sort\<close> with the comparator \<open>a.second < b.second\<close> guarantees: the result is a
  permutation of the input, ascending in the second component.
\<close>

definition sort_ok :: "((nat \<times> nat) list \<Rightarrow> (nat \<times> nat) list) \<Rightarrow> bool" where
  "sort_ok srt = (\<forall>xs. mset (srt xs) = mset xs \<and> sorted (map snd (srt xs)))"

text \<open>The set of tree edges the traversal computes, when it runs through.\<close>

definition spanning_tree_edges :: "nat \<Rightarrow> TopologyInfo \<Rightarrow> nat set option" where
  "spanning_tree_edges F topo =
     (case dual_graph F topo of
        None \<Rightarrow> None
      | Some (dual_adj, dual_edge_indices) \<Rightarrow>
          map_option tree_edges (spanning_tree F dual_adj dual_edge_indices))"


text \<open>
  Two faces are linked when an interior edge (both incident faces present) that is not a
  seam has them as its two faces. A path of such edges is the reflexive transitive closure
  of this relation.
\<close>

definition face_link :: "TopologyInfo \<Rightarrow> nat list \<Rightarrow> (nat \<times> nat) set" where
  "face_link topo seam_edges =
     {(f, g). \<exists>e<num_edges topo. e \<notin> set seam_edges \<and>
        fst (edge_faces topo ! e) \<noteq> -1 \<and> snd (edge_faces topo ! e) \<noteq> -1 \<and>
        ((int f = fst (edge_faces topo ! e) \<and> int g = snd (edge_faces topo ! e)) \<or>
         (int g = fst (edge_faces topo ! e) \<and> int f = snd (edge_faces topo ! e)))}"

text \<open>
  A mesh and an unwrap result whose arrays have the lengths their counts say and whose
  triangles refer to vertices of the mesh.
\<close>

definition mesh_ok :: "Mesh \<Rightarrow> UnwrapResult \<Rightarrow> bool" where
  "mesh_ok mesh result =
     (length (triangles mesh) = num_triangles mesh \<and>
      length (uvs mesh) = num_vertices mesh \<and>
      length (face_island_ids result) = num_triangles mesh \<and>
      (\<forall>f\<in>set [0..<num_triangles mesh]. \<forall>v\<in>set (face_vertices mesh f). v < num_vertices mesh))"

text \<open>
  What \<open>std::sort\<close> with the comparator \<open>a.height > b.height\<close> guarantees: a permutation of
  the islands, descending in height.
\<close>

definition island_sort_ok :: "(Island list \<Rightarrow> Island list) \<Rightarrow> bool" where
  "island_sort_ok srt = (\<forall>xs. mset (srt xs) = mset xs \<and> sorted (rev (map height (srt xs))))"



fun shelf_numbers :: "real \<Rightarrow> Island list \<Rightarrow> shelf_state \<Rightarrow> nat \<Rightarrow> nat list" where
  "shelf_numbers margin [] s k = []"
| "shelf_numbers margin (island # rest) s k =
     (if width island = 0 then k # shelf_numbers margin rest s k
      else
        let k' = (if starts_new_shelf island s then Suc k else k)
        in k' # shelf_numbers margin rest (snd (place_island margin island s)) k')"

definition island_shelves :: "(Island list \<Rightarrow> Island list) \<Rightarrow> Mesh \<Rightarrow> UnwrapResult \<Rightarrow> real \<Rightarrow> nat list" where
  "island_shelves srt mesh result margin =
     shelf_numbers margin (srt (map set_dimensions (snd (collect_islands mesh result)))) init_shelf 0"

text \<open>The distinct vertices that the triangles of an island refer to.\<close>

definition island_vertices :: "Mesh \<Rightarrow> nat list \<Rightarrow> nat set" where
  "island_vertices mesh face_indices = (\<Union>f\<in>set face_indices. set (face_vertices mesh f))"


text \<open>
  The contract of the linear solver. A vector \<open>x\<close> solves the system of a sparse matrix \<open>A\<close>
  with \<open>m\<close> rows when every row of \<open>A\<close> times \<open>x\<close> equals the entry of the right-hand side;
  entries stored at the same position add up, as \<open>setFromTriplets\<close> adds them. An exact
  solver returns a vector only if it is the one solution of the system: a factorization
  exists only for a regular matrix.
\<close>

definition row_times :: "sparse \<Rightarrow> real list \<Rightarrow> nat \<Rightarrow> real" where
  "row_times A x r = sum_list (map (\<lambda>(r', c, v). if r' = r then v * x ! c else 0) A)"

definition solves :: "nat \<Rightarrow> sparse \<Rightarrow> real list \<Rightarrow> real list \<Rightarrow> bool" where
  "solves m A x b = (length x = m \<and> (\<forall>r<m. row_times A x r = b ! r))"


definition exact_solver :: "(nat \<Rightarrow> sparse \<Rightarrow> 'f option) \<Rightarrow> ('f \<Rightarrow> real list \<Rightarrow> real list option) \<Rightarrow> bool" where
  "exact_solver factorize solve =
     (\<forall>m A lu b x. factorize m A = Some lu \<longrightarrow> solve lu b = Some x \<longrightarrow>
        solves m A x b \<and> (\<forall>y. solves m A y b \<longrightarrow> y = x))"


text \<open>
  The storage of a sparse matrix with \<open>m\<close> rows and columns, as Eigen iterates over it: no
  position is stored twice and every position lies inside the matrix.
\<close>

definition sparse_ok :: "nat \<Rightarrow> sparse \<Rightarrow> bool" where
  "sparse_ok m A = (distinct (map (\<lambda>entry. (fst entry, fst (snd entry))) A) \<and>
                    (\<forall>entry\<in>set A. fst entry < m \<and> fst (snd entry) < m))"

section \<open>Concrete inputs\<close>

text \<open>A square of two triangles and its topology (an open mesh).\<close>

definition quad :: Mesh where
  "quad = \<lparr>num_vertices = 4, num_triangles = 2, vertices = [],
     triangles = [(0, 1, 2), (0, 2, 3)], uvs = [(0, 0), (1, 0), (1, 1), (0, 1)]\<rparr>"

definition quad_topology :: TopologyInfo where
  "quad_topology = \<lparr>num_edges = 5, edges = [(0, 1), (0, 2), (0, 3), (1, 2), (2, 3)],
     edge_faces = [(0, - 1), (0, 1), (1, - 1), (0, - 1), (1, - 1)]\<rparr>"

text \<open>A tetrahedron and its topology (a closed mesh).\<close>

definition tetrahedron :: Mesh where
  "tetrahedron = \<lparr>num_vertices = 4, num_triangles = 4, vertices = [],
     triangles = [(0, 1, 2), (0, 3, 1), (1, 3, 2), (2, 3, 0)], uvs = []\<rparr>"

definition tetrahedron_topology :: TopologyInfo where
  "tetrahedron_topology = \<lparr>num_edges = 6,
     edges = [(0, 1), (0, 2), (0, 3), (1, 2), (1, 3), (2, 3)],
     edge_faces = [(0, 1), (0, 3), (1, 3), (0, 2), (1, 2), (2, 3)]\<rparr>"

text \<open>Twenty-one copies of the degenerate triangle \<open>(0, 0, 0)\<close>: one edge, shared by the
  first and the last face.\<close>

definition collapsed :: Mesh where
  "collapsed = \<lparr>num_vertices = 1, num_triangles = 21, vertices = [],
     triangles = replicate 21 (0, 0, 0), uvs = []\<rparr>"


text \<open>One sorting function that meets \<open>island_sort_ok\<close>.\<close>

definition by_height :: "Island list \<Rightarrow> Island list" where
  "by_height xs = rev (sort_key height xs)"

text \<open>Three separate triangles of UV width \<open>2/5\<close> and heights \<open>1\<close>, \<open>9/10\<close>, \<open>4/5\<close>, one
  island each.\<close>

definition shelf_mesh :: Mesh where
  "shelf_mesh = \<lparr>num_vertices = 9, num_triangles = 3, vertices = [],
     triangles = [(0, 1, 2), (3, 4, 5), (6, 7, 8)],
     uvs = [(0, 0), (2/5, 0), (0, 1),  (0, 0), (2/5, 0), (0, 9/10),  (0, 0), (2/5, 0), (0, 4/5)]\<rparr>"

definition three_islands :: UnwrapResult where
  "three_islands = \<lparr>num_islands = 3, face_island_ids = [0, 1, 2]\<rparr>"

text \<open>Two separate triangles, one island each; the UVs of the second lie on the line
  \<open>u = 1\<close>, so that island has width zero.\<close>

definition thin_mesh :: Mesh where
  "thin_mesh = \<lparr>num_vertices = 6, num_triangles = 2, vertices = [],
     triangles = [(0, 1, 2), (3, 4, 5)],
     uvs = [(0, 0), (1/2, 0), (0, 1/2),  (1, 0), (1, 1), (1, 1/2)]\<rparr>"

definition two_islands :: UnwrapResult where
  "two_islands = \<lparr>num_islands = 2, face_island_ids = [0, 1]\<rparr>"

text \<open>
  A solver that factorizes the identity matrix only, a matrix in which two pinned columns
  are coupled to the free variable 2, and the distance of two vertex indices in place of
  the distance of their positions.
\<close>

definition identity_entries :: "nat \<Rightarrow> sparse" where
  "identity_entries m = map (\<lambda>i. (i, i, 1)) [0..<m]"

definition identity_factorize :: "nat \<Rightarrow> sparse \<Rightarrow> nat option" where
  "identity_factorize m A = (if A = identity_entries m then Some m else None)"

definition identity_solve :: "nat \<Rightarrow> real list \<Rightarrow> real list option" where
  "identity_solve m b = (if length b = m then Some b else None)"

definition coupled_assemble :: "Mesh \<Rightarrow> nat list \<Rightarrow> sparse" where
  "coupled_assemble mesh face_indices =
     identity_entries (2 * length (snd (local_vertex_map mesh face_indices)))
       @ [(2, 0, 5), (0, 2, 5), (2, 6, 3), (6, 2, 3)]"

definition index_distance :: "nat \<Rightarrow> nat \<Rightarrow> real" where
  "index_distance a b = \<bar>real a - real b\<bar>"

section \<open>Invariants of the loops\<close>

text \<open>The relation an adjacency list represents, and the links contributed by the first
  \<open>n\<close> edges.\<close>

definition adj_rel :: "nat list list \<Rightarrow> (nat \<times> nat) set" where
  "adj_rel adj = {(u, v). u < length adj \<and> v \<in> set (adj ! u)}"

definition link_upto :: "TopologyInfo \<Rightarrow> nat list \<Rightarrow> nat \<Rightarrow> (nat \<times> nat) set" where
  "link_upto topo seam_edges n =
     {(f, g). \<exists>e<n. e \<notin> set seam_edges \<and>
        fst (edge_faces topo ! e) \<noteq> -1 \<and> snd (edge_faces topo ! e) \<noteq> -1 \<and>
        ((int f = fst (edge_faces topo ! e) \<and> int g = snd (edge_faces topo ! e)) \<or>
         (int g = fst (edge_faces topo ! e) \<and> int f = snd (edge_faces topo ! e)))}"

text \<open>The state of one island's traversal, started at face \<open>s\<close> with label \<open>c\<close> on the labels
  \<open>ids0\<close>.\<close>

definition bfs_inv :: "nat \<Rightarrow> nat list list \<Rightarrow> int list \<Rightarrow> nat \<Rightarrow> nat \<Rightarrow> int list \<Rightarrow> nat list \<Rightarrow> nat \<Rightarrow> bool" where
  "bfs_inv F adj ids0 s c ids q head =
     (length ids = F \<and> head \<le> length q \<and> s \<in> set q \<and>
      (\<forall>f<F. ids0 ! f \<noteq> -1 \<longrightarrow> ids ! f = ids0 ! f) \<and>
      (\<forall>f<F. ids0 ! f = -1 \<longrightarrow> ids ! f = (if f \<in> set q then int c else -1)) \<and>
      (\<forall>f\<in>set q. f < F \<and> ids0 ! f = -1 \<and> (s, f) \<in> (adj_rel adj)\<^sup>*) \<and>
      (\<forall>i<head. \<forall>v\<in>set (adj ! (q ! i)). ids ! v \<noteq> -1))"

text \<open>The labels when that traversal ends.\<close>

definition bfs_post :: "nat \<Rightarrow> nat list list \<Rightarrow> int list \<Rightarrow> nat \<Rightarrow> nat \<Rightarrow> int list \<Rightarrow> bool" where
  "bfs_post F adj ids0 s c ids' =
     (length ids' = F \<and>
      (\<forall>f<F. ids' ! f = (if ids0 ! f \<noteq> -1 then ids0 ! f
                         else if (s, f) \<in> (adj_rel adj)\<^sup>* then int c else -1)))"

text \<open>Labels are closed when an adjacency never joins a labelled and an unlabelled
  face.\<close>

definition closed_labels :: "nat list list \<Rightarrow> int list \<Rightarrow> bool" where
  "closed_labels adj ids = (\<forall>(u, v)\<in>adj_rel adj. (ids ! u = -1) = (ids ! v = -1))"

text \<open>The state of the loop over start faces, before start face \<open>k\<close>.\<close>

definition outer_inv :: "nat \<Rightarrow> nat list list \<Rightarrow> nat \<Rightarrow> int list \<times> nat \<Rightarrow> bool" where
  "outer_inv F adj k st =
     (case st of (ids, cur) \<Rightarrow>
        length ids = F \<and>
        (\<forall>f<F. f < k \<longrightarrow> ids ! f \<noteq> -1) \<and>
        (\<forall>f<F. ids ! f = -1 \<or> (0 \<le> ids ! f \<and> ids ! f < int cur)) \<and>
        (\<forall>f<F. \<forall>g<F. ids ! f \<noteq> -1 \<longrightarrow> ids ! g \<noteq> -1 \<longrightarrow>
            (ids ! f = ids ! g) = ((f, g) \<in> (adj_rel adj)\<^sup>*)) \<and>
        closed_labels adj ids)"

text \<open>The bounding box of an island is the box of the UVs of its own vertices.\<close>

definition bbox_ok :: "Mesh \<Rightarrow> Island \<Rightarrow> bool" where
  "bbox_ok mesh island =
     ((min_u island, max_u island, min_v island, max_v island)
        = uv_bounds (map (\<lambda>v. uvs mesh ! v) (vertex_indices island)))"

text \<open>The state of step 1: every island owns exactly the vertices mapped to it.\<close>

definition islands_inv :: "Mesh \<Rightarrow> nat \<Rightarrow> int list \<times> Island list \<Rightarrow> bool" where
  "islands_inv mesh n st =
     (case st of (vert_to_island, islands) \<Rightarrow>
        length vert_to_island = num_vertices mesh \<and> length islands = n \<and>
        (\<forall>i<n. island_id (islands ! i) = i \<and>
           distinct (vertex_indices (islands ! i)) \<and>
           set (vertex_indices (islands ! i)) = {v. v < num_vertices mesh \<and> vert_to_island ! v = int i} \<and>
           bbox_ok mesh (islands ! i)))"


text \<open>What the later steps need to know about one island.\<close>

definition island_ok :: "Mesh \<Rightarrow> int list \<Rightarrow> nat \<Rightarrow> Island \<Rightarrow> bool" where
  "island_ok mesh vert_to_island n island =
     (island_id island < n \<and>
      distinct (vertex_indices island) \<and>
      set (vertex_indices island)
        = {v. v < num_vertices mesh \<and> vert_to_island ! v = int (island_id island)} \<and>
      bbox_ok mesh island \<and>
      0 \<le> width island \<and> 0 \<le> height island \<and>
      (width island \<noteq> 0 \<longrightarrow>
         width island = max_u island - min_u island \<and>
         height island = max_v island - min_v island))"

text \<open>The shelf cursor never goes negative.\<close>

definition shelf_ok :: "shelf_state \<Rightarrow> bool" where
  "shelf_ok s = (0 \<le> current_x s \<and> 0 \<le> current_y s \<and> 0 \<le> shelf_height s \<and>
                 0 \<le> packed_max_w s \<and> 0 \<le> packed_max_h s)"

text \<open>An island without its placement.\<close>

definition erase_targets :: "Island \<Rightarrow> Island" where
  "erase_targets island = island\<lparr>target_x := 0, target_y := 0\<rparr>"

text \<open>A UV after the move of island \<open>y\<close>, and after the global scale.\<close>

definition moved_uv :: "Island \<Rightarrow> real \<times> real \<Rightarrow> real \<times> real" where
  "moved_uv y p = (fst p + (target_x y - min_u y), snd p + (target_y y - min_v y))"

definition scaled_uv :: "real \<Rightarrow> real \<times> real \<Rightarrow> real \<times> real" where
  "scaled_uv sc p = (fst p * sc, snd p * sc)"

definition moving_island :: "Island list \<Rightarrow> nat \<Rightarrow> Island option" where
  "moving_island ys v = find (\<lambda>y. width y \<noteq> 0 \<and> v \<in> set (vertex_indices y)) ys"

text \<open>The local vertex mapping: the vector lists each vertex once and the map inverts it.\<close>

definition local_map_inv :: "(nat \<rightharpoonup> nat) \<times> nat list \<Rightarrow> bool" where
  "local_map_inv st =
     (case st of (global_to_local, local_to_global) \<Rightarrow>
        distinct local_to_global \<and> dom global_to_local = set local_to_global \<and>
        (\<forall>i<length local_to_global. global_to_local (local_to_global ! i) = Some i))"


text \<open>The two pinned vertices are different local vertices.\<close>

definition pins_ok :: "nat \<Rightarrow> nat \<times> nat \<Rightarrow> bool" where
  "pins_ok n p = (fst p \<noteq> snd p \<and> fst p < n \<and> snd p < n)"

section \<open>Properties of the topology builder\<close>

text \<open>
  C8 (as stated, refuted): an empty mesh would yield no topology. The code tests only the
  null pointer; on a mesh with zero vertices and zero triangles the loop does not run and
  the function returns a topology with zero edges.
\<close>

theorem build_topology_empty_mesh_counterexample:
  "num_vertices \<lparr>num_vertices = 0, num_triangles = 0, vertices = [], triangles = [], uvs = []\<rparr> = 0 \<and>
   num_triangles \<lparr>num_vertices = 0, num_triangles = 0, vertices = [], triangles = [], uvs = []\<rparr> = 0 \<and>
   build_topology (Some \<lparr>num_vertices = 0, num_triangles = 0, vertices = [], triangles = [], uvs = []\<rparr>)
     = Some \<lparr>num_edges = 0, edges = [], edge_faces = []\<rparr>"
  by (simp add: build_topology_def collect_edges_def)

text \<open>
  C8 (amended): for a null mesh input \<open>build_topology\<close> produces no topology; for every
  non-null mesh it produces one, and for a mesh with zero triangles that topology has zero
  edges.
\<close>

theorem build_topology_null_and_empty:
  "build_topology None = None \<and>
   (\<exists>topo. build_topology (Some mesh) = Some topo) \<and>
   (num_triangles mesh = 0 \<longrightarrow>
      build_topology (Some mesh) = Some \<lparr>num_edges = 0, edges = [], edge_faces = []\<rparr>)"
  by (simp add: build_topology_def collect_edges_def Let_def)

theorem build_topology_null_and_empty_witness:
  "build_topology None = None \<and>
   (\<exists>topo. build_topology (Some \<lparr>num_vertices = 3, num_triangles = 0, vertices = [], triangles = [], uvs = []\<rparr>) = Some topo) \<and>
   num_triangles \<lparr>num_vertices = 3, num_triangles = 0, vertices = [], triangles = [], uvs = []\<rparr> = 0 \<and>
   build_topology (Some \<lparr>num_vertices = 3, num_triangles = 0, vertices = [], triangles = [], uvs = []\<rparr>)
     = Some \<lparr>num_edges = 0, edges = [], edge_faces = []\<rparr>"
  using build_topology_null_and_empty
    [of "\<lparr>num_vertices = 3, num_triangles = 0, vertices = [], triangles = [], uvs = []\<rparr>"]
  by simp

section \<open>Properties of the normalization\<close>













section \<open>Properties of the seam detection\<close>


lemma sort_ok_sort_key: "sort_ok (sort_key snd)"
  by (simp add: sort_ok_def)

lemma topology_ok_faces_in_range: "topology_ok F topo \<Longrightarrow> faces_in_range F topo"
  by (auto simp: topology_ok_def faces_in_range_def)

lemma fold_option_inv:
  assumes "P s" and "\<And>x s. x \<in> set xs \<Longrightarrow> P s \<Longrightarrow> \<exists>s'. f x s = Some s' \<and> P s'"
  shows "\<exists>s'. fold_option f xs s = Some s' \<and> P s'"
  using assms
proof (induction xs arbitrary: s)
  case Nil
  then show ?case by simp
next
  case (Cons x xs)
  from Cons.prems(2)[of x s] Cons.prems(1) obtain s1 where s1: "f x s = Some s1" "P s1" by auto
  from Cons.IH[OF s1(2)] Cons.prems(2) obtain s' where "fold_option f xs s1 = Some s'" "P s'"
    by auto
  then show ?case using s1 by simp
qed

definition adj_ok :: "nat \<Rightarrow> nat list list \<Rightarrow> bool" where
  "adj_ok F adj = (length adj = F \<and> (\<forall>u<F. \<forall>v\<in>set (adj ! u). v < F))"

lemma adj_ok_push: "adj_ok F adj \<Longrightarrow> i < F \<Longrightarrow> x < F \<Longrightarrow> adj_ok F (push_at i x adj)"
  by (auto simp: adj_ok_def push_at_def nth_list_update)

lemma length_push_at [simp]: "length (push_at i x xss) = length xss"
  by (simp add: push_at_def)

lemma dual_graph_step_ok:
  assumes "faces_in_range F topo" "e < num_edges topo" "adj_ok F (fst g)" "length (snd g) = F"
  shows "\<exists>g'. dual_graph_step F topo e g = Some g' \<and> adj_ok F (fst g') \<and> length (snd g') = F"
proof -
  obtain da de where g: "g = (da, de)" by (cases g)
  have "edge_faces topo ! e \<in> set (edge_faces topo)" using assms(1,2) by (simp add: faces_in_range_def)
  then have r: "fst (edge_faces topo ! e) = -1 \<or> in_faces F (fst (edge_faces topo ! e))"
      "snd (edge_faces topo ! e) = -1 \<or> in_faces F (snd (edge_faces topo ! e))"
    using assms(1) by (auto simp: faces_in_range_def)
  show ?thesis
  proof (cases "fst (edge_faces topo ! e) \<noteq> -1 \<and> snd (edge_faces topo ! e) \<noteq> -1")
    case True
    with r have i: "in_faces F (fst (edge_faces topo ! e))" "in_faces F (snd (edge_faces topo ! e))" by auto
    then have n: "nat (fst (edge_faces topo ! e)) < F" "nat (snd (edge_faces topo ! e)) < F"
      by (auto simp: in_faces_def)
    show ?thesis using True i n assms(3,4)
      by (simp add: dual_graph_step_def g Let_def adj_ok_push)
  next
    case False
    then show ?thesis using assms(3,4) by (auto simp: dual_graph_step_def g Let_def)
  qed
qed

lemma dual_graph_ok:
  assumes "faces_in_range F topo"
  shows "\<exists>da de. dual_graph F topo = Some (da, de) \<and> adj_ok F da \<and> length de = F"
proof -
  have "\<exists>g'. fold_option (dual_graph_step F topo) [0..<num_edges topo] (replicate F [], replicate F []) = Some g'
      \<and> (adj_ok F (fst g') \<and> length (snd g') = F)"
  proof (rule fold_option_inv[where P="\<lambda>g. adj_ok F (fst g) \<and> length (snd g) = F"])
    show "adj_ok F (fst (replicate F [], replicate F [])) \<and> length (snd (replicate F [], replicate F [])) = F"
      by (simp add: adj_ok_def)
  next
    fix x and g :: "nat list list \<times> nat list list"
    assume "x \<in> set [0..<num_edges topo]" "adj_ok F (fst g) \<and> length (snd g) = F"
    then show "\<exists>g'. dual_graph_step F topo x g = Some g' \<and> adj_ok F (fst g') \<and> length (snd g') = F"
      using dual_graph_step_ok[OF assms, of x g] by simp
  qed
  then show ?thesis by (auto simp: dual_graph_def)
qed

definition bfs_ok :: "nat \<Rightarrow> bfs_state \<Rightarrow> bool" where
  "bfs_ok F s = (length (visited s) = F \<and> (\<forall>u\<in>set (queue s). u < F))"

lemma visit_neighbour_ok:
  assumes "adj_ok F da" "u < F" "i < length (da ! u)" "bfs_ok F s"
  shows "\<exists>s'. visit_neighbour da de u i s = Some s' \<and> bfs_ok F s'"
proof -
  have "da ! u ! i < F" using assms(1,2,3) by (auto simp: adj_ok_def)
  then show ?thesis using assms(4) by (auto simp: visit_neighbour_def bfs_ok_def Let_def)
qed

lemma bfs_loop_ok:
  "adj_ok F da \<Longrightarrow> bfs_ok F s \<Longrightarrow> \<exists>s'. bfs_loop da de s = Some s' \<and> bfs_ok F s' \<and> queue s' = []"
proof (induction da de s rule: bfs_loop.induct)
  case (1 da de s)
  show ?case
  proof (cases "queue s")
    case Nil
    then show ?thesis using "1.prems" by (simp add: bfs_loop.simps)
  next
    case (Cons u rest)
    have u: "u < F" using "1.prems" Cons by (simp add: bfs_ok_def)
    then have ul: "u < length da" using "1.prems"(1) by (auto simp: adj_ok_def)
    have ok0: "bfs_ok F (s\<lparr>queue := rest\<rparr>)" using "1.prems" Cons by (simp add: bfs_ok_def)
    have "\<exists>s1. fold_option (visit_neighbour da de u) [0..<length (da ! u)] (s\<lparr>queue := rest\<rparr>) = Some s1
        \<and> bfs_ok F s1"
    proof (rule fold_option_inv[where P="bfs_ok F", OF ok0])
      fix i t assume "i \<in> set [0..<length (da ! u)]" "bfs_ok F t"
      then show "\<exists>s'. visit_neighbour da de u i t = Some s' \<and> bfs_ok F s'"
        using visit_neighbour_ok[OF "1.prems"(1) u, of i t de] by simp
    qed
    then obtain s1 where s1: "fold_option (visit_neighbour da de u) [0..<length (da ! u)] (s\<lparr>queue := rest\<rparr>) = Some s1"
      "bfs_ok F s1" by auto
    from "1.IH"[OF Cons ul s1(1) "1.prems"(1) s1(2)] show ?thesis
      using Cons ul s1(1) by (simp add: bfs_loop.simps[of da de s])
  qed
qed

lemma bfs_from_ok:
  assumes "adj_ok F da" "start_node < F" "bfs_ok F s" 
  shows "\<exists>s'. bfs_from da de start_node s = Some s' \<and> bfs_ok F s'"
proof (cases "visited s ! start_node")
  case True
  then show ?thesis using assms(3) by (simp add: bfs_from_def)
next
  case False
  have "bfs_ok F (s\<lparr>queue := queue s @ [start_node], visited := (visited s)[start_node := True]\<rparr>)"
    using assms(2,3) by (auto simp: bfs_ok_def)
  from bfs_loop_ok[OF assms(1) this, of de] show ?thesis using False by (auto simp: bfs_from_def)
qed

lemma spanning_tree_ok:
  assumes "adj_ok F da"
  shows "\<exists>s. spanning_tree F da de = Some s"
proof -
  have "\<exists>s'. fold_option (bfs_from da de) [0..<F] \<lparr>visited = replicate F False, queue = [], tree_edges = {}\<rparr> = Some s'
     \<and> bfs_ok F s'"
  proof (rule fold_option_inv[where P="bfs_ok F"])
    show "bfs_ok F \<lparr>visited = replicate F False, queue = [], tree_edges = {}\<rparr>"
      by (simp add: bfs_ok_def)
  next
    fix x t assume "x \<in> set [0..<F]" "bfs_ok F t"
    then show "\<exists>s'. bfs_from da de x t = Some s' \<and> bfs_ok F s'"
      using bfs_from_ok[OF assms, of x t de] by simp
  qed
  then show ?thesis by (auto simp: spanning_tree_def)
qed

lemma spanning_tree_edges_ok:
  assumes "faces_in_range F topo"
  shows "\<exists>tree. spanning_tree_edges F topo = Some tree"
proof -
  from dual_graph_ok[OF assms] obtain da de where d: "dual_graph F topo = Some (da, de)" "adj_ok F da"
    by auto
  from spanning_tree_ok[OF d(2), of de] obtain s where "spanning_tree F da de = Some s" by auto
  then show ?thesis using d(1) by (simp add: spanning_tree_edges_def)
qed

lemma detect_seams_eq:
  assumes "spanning_tree_edges (num_triangles mesh) topo = Some tree"
  shows "detect_seams srt mesh topo a = Some
     (if is_closed_mesh topo then
        select_seams (target_seams_closed (num_triangles mesh) (length (srt (non_tree_edges_closed topo tree))))
           (srt (non_tree_edges_closed topo tree))
      else select_seams (target_seams_open (length (srt (non_tree_edges_open topo tree))))
           (srt (non_tree_edges_open topo tree)))"
  using assms
  by (auto simp: detect_seams_def spanning_tree_edges_def Let_def split: option.splits)

lemma set_select_seams: "set (select_seams t xs) \<subseteq> fst ` set xs"
  by (auto simp: select_seams_def dest!: in_set_takeD)

lemma sort_ok_set: "sort_ok srt \<Longrightarrow> set (srt xs) = set xs"
  unfolding sort_ok_def by (metis set_mset_mset)

lemma is_closed_meshD:
  assumes "is_closed_mesh topo" "e < num_edges topo"
  shows "snd (edge_faces topo ! e) \<noteq> -1"
proof
  assume "snd (edge_faces topo ! e) = -1"
  then have "e \<in> set (filter (\<lambda>e. snd (edge_faces topo ! e) = -1) [0..<num_edges topo])"
    using assms(2) by simp
  then show False using assms(1) unfolding is_closed_mesh_def num_boundary_edges_def
    by (metis length_0_conv empty_iff list.set(1))
qed

text \<open>
  C7: on a topology that satisfies the data-model invariant, \<open>detect_seams\<close> returns an
  array in which every entry is a valid edge index whose edge has both incident faces: no
  boundary edge is ever a seam. This holds for every outcome of \<open>std::sort\<close>.
\<close>

theorem detect_seams_interior:
  assumes "topology_ok (num_triangles mesh) topo" and "sort_ok srt"
  shows "\<exists>seams. detect_seams srt mesh topo angle_threshold = Some seams \<and>
     (\<forall>e\<in>set seams. e < num_edges topo \<and>
         fst (edge_faces topo ! e) \<noteq> -1 \<and> snd (edge_faces topo ! e) \<noteq> -1)"
proof -
  from spanning_tree_edges_ok[OF topology_ok_faces_in_range[OF assms(1)]]
  obtain tree where t: "spanning_tree_edges (num_triangles mesh) topo = Some tree" by auto
  note eq = detect_seams_eq[OF t, of srt angle_threshold]
  have f0: "fst (edge_faces topo ! e) \<noteq> -1" if "e < num_edges topo" for e
  proof -
    have "edge_faces topo ! e \<in> set (edge_faces topo)" using that assms(1) by (simp add: topology_ok_def)
    then show ?thesis using assms(1) by (auto simp: topology_ok_def in_faces_def)
  qed
  show ?thesis
  proof (cases "is_closed_mesh topo")
    case True
    have "set (select_seams t (srt (non_tree_edges_closed topo tree))) \<subseteq> {e. e < num_edges topo}" for t
      using set_select_seams[of t "srt (non_tree_edges_closed topo tree)"]
      by (auto simp: sort_ok_set[OF assms(2)] non_tree_edges_closed_def)
    then show ?thesis using eq True f0 is_closed_meshD[OF True] by auto
  next
    case False
    have "set (select_seams t (srt (non_tree_edges_open topo tree)))
        \<subseteq> {e. e < num_edges topo \<and> snd (edge_faces topo ! e) \<noteq> -1}" for t
      using set_select_seams[of t "srt (non_tree_edges_open topo tree)"]
      by (auto simp: sort_ok_set[OF assms(2)] non_tree_edges_open_def)
    then show ?thesis using eq False f0 by auto
  qed
qed

theorem detect_seams_interior_witness:
  "topology_ok (num_triangles quad) quad_topology \<and> sort_ok (sort_key snd) \<and>
   (\<exists>seams. detect_seams (sort_key snd) quad quad_topology 30 = Some seams \<and>
      (\<forall>e\<in>set seams. e < num_edges quad_topology \<and>
         fst (edge_faces quad_topology ! e) \<noteq> -1 \<and> snd (edge_faces quad_topology ! e) \<noteq> -1))"
proof -
  have h: "topology_ok (num_triangles quad) quad_topology"
    by (simp add: topology_ok_def in_faces_def quad_def quad_topology_def)
  from detect_seams_interior[OF h sort_ok_sort_key, of 30] h sort_ok_sort_key
  show ?thesis by blast
qed















section \<open>Properties of the island extraction\<close>

lemma fold_option_append:
  "fold_option f (xs @ ys) s =
     (case fold_option f xs s of None \<Rightarrow> None | Some s' \<Rightarrow> fold_option f ys s')"
  by (induction xs arbitrary: s) (auto split: option.splits)

lemma fold_option_upt_inv:
  assumes "P 0 s" and "\<And>k t. k < n \<Longrightarrow> P k t \<Longrightarrow> \<exists>t'. f k t = Some t' \<and> P (Suc k) t'"
  shows "\<exists>s'. fold_option f [0..<n] s = Some s' \<and> P n s'"
  using assms(2)
proof (induction n)
  case 0
  then show ?case using assms(1) by simp
next
  case (Suc n)
  from Suc.IH Suc.prems obtain s1 where s1: "fold_option f [0..<n] s = Some s1" "P n s1"
    by (metis less_Suc_eq)
  from Suc.prems[of n s1] s1(2) obtain s2 where "f n s1 = Some s2" "P (Suc n) s2" by auto
  then show ?case using s1(1) by (simp add: fold_option_append)
qed

lemma adj_rel_push:
  "i < length adj \<Longrightarrow> adj_rel (push_at i x adj) = insert (i, x) (adj_rel adj)"
  by (auto simp: adj_rel_def push_at_def nth_list_update split: if_splits)

lemma link_upto_Suc_skip:
  assumes "e \<in> set seam_edges \<or> fst (edge_faces topo ! e) = -1 \<or> snd (edge_faces topo ! e) = -1"
  shows "link_upto topo seam_edges (Suc e) = link_upto topo seam_edges e"
  using assms by (auto simp: link_upto_def less_Suc_eq)

lemma link_upto_Suc_add:
  assumes "e \<notin> set seam_edges" "fst (edge_faces topo ! e) \<noteq> -1" "snd (edge_faces topo ! e) \<noteq> -1"
    and "in_faces F (fst (edge_faces topo ! e))" "in_faces F (snd (edge_faces topo ! e))"
  shows "link_upto topo seam_edges (Suc e) =
     insert (nat (snd (edge_faces topo ! e)), nat (fst (edge_faces topo ! e)))
       (insert (nat (fst (edge_faces topo ! e)), nat (snd (edge_faces topo ! e)))
          (link_upto topo seam_edges e))"
  using assms by (auto simp: link_upto_def less_Suc_eq in_faces_def)

lemma island_adjacency_step_ok:
  assumes "faces_in_range F topo" "e < num_edges topo" "adj_ok F adj"
    and "adj_rel adj = link_upto topo seam_edges e"
  shows "\<exists>adj'. island_adjacency_step F topo seam_edges e adj = Some adj' \<and>
     adj_ok F adj' \<and> adj_rel adj' = link_upto topo seam_edges (Suc e)"
proof -
  let ?f0 = "fst (edge_faces topo ! e)" and ?f1 = "snd (edge_faces topo ! e)"
  have "edge_faces topo ! e \<in> set (edge_faces topo)" using assms(1,2) by (simp add: faces_in_range_def)
  then have r: "?f0 = -1 \<or> in_faces F ?f0" "?f1 = -1 \<or> in_faces F ?f1"
    using assms(1) by (auto simp: faces_in_range_def)
  show ?thesis
  proof (cases "e \<in> set seam_edges \<or> ?f0 = -1 \<or> ?f1 = -1")
    case True
    then have "island_adjacency_step F topo seam_edges e adj = Some adj"
      by (auto simp: island_adjacency_step_def Let_def)
    then show ?thesis using assms(3,4) link_upto_Suc_skip[OF True] by simp
  next
    case False
    with r have i: "in_faces F ?f0" "in_faces F ?f1" by auto
    then have n: "nat ?f0 < F" "nat ?f1 < F" by (auto simp: in_faces_def)
    have len: "length adj = F" using assms(3) by (simp add: adj_ok_def)
    have st: "island_adjacency_step F topo seam_edges e adj
        = Some (push_at (nat ?f1) (nat ?f0) (push_at (nat ?f0) (nat ?f1) adj))"
      using False i by (simp add: island_adjacency_step_def Let_def)
    have ok: "adj_ok F (push_at (nat ?f1) (nat ?f0) (push_at (nat ?f0) (nat ?f1) adj))"
      using assms(3) n by (simp add: adj_ok_push)
    have rel: "adj_rel (push_at (nat ?f1) (nat ?f0) (push_at (nat ?f0) (nat ?f1) adj))
        = insert (nat ?f1, nat ?f0) (insert (nat ?f0, nat ?f1) (adj_rel adj))"
      using n len by (simp add: adj_rel_push)
    show ?thesis using st ok rel assms(4) link_upto_Suc_add[of e seam_edges topo F] False i
      by simp
  qed
qed

lemma island_adjacency_ok:
  assumes "faces_in_range F topo"
  shows "\<exists>adj. island_adjacency F topo seam_edges = Some adj \<and> adj_ok F adj \<and>
     adj_rel adj = face_link topo seam_edges"
proof -
  have "\<exists>adj. fold_option (island_adjacency_step F topo seam_edges) [0..<num_edges topo] (replicate F []) = Some adj
      \<and> (adj_ok F adj \<and> adj_rel adj = link_upto topo seam_edges (num_edges topo))"
  proof (rule fold_option_upt_inv[where P="\<lambda>k adj. adj_ok F adj \<and> adj_rel adj = link_upto topo seam_edges k"])
    show "adj_ok F (replicate F []) \<and> adj_rel (replicate F []) = link_upto topo seam_edges 0"
      by (auto simp: adj_ok_def adj_rel_def link_upto_def)
  next
    fix k adj assume "k < num_edges topo" "adj_ok F adj \<and> adj_rel adj = link_upto topo seam_edges k"
    then show "\<exists>t'. island_adjacency_step F topo seam_edges k adj = Some t' \<and>
        adj_ok F t' \<and> adj_rel t' = link_upto topo seam_edges (Suc k)"
      using island_adjacency_step_ok[OF assms, of k adj seam_edges] by simp
  qed
  then show ?thesis by (simp add: island_adjacency_def link_upto_def face_link_def)
qed

lemma sym_face_link: "sym (face_link topo seam_edges)"
  by (auto simp: sym_def face_link_def)



lemma fold_label_result:
  assumes "\<forall>v\<in>set vs. v < length ids"
  shows "\<exists>ids' new. fold_option (label_neighbour c) vs (ids, q) = Some (ids', q @ new) \<and>
     length ids' = length ids \<and>
     (\<forall>f<length ids. ids' ! f = (if f \<in> set vs \<and> ids ! f = -1 then int c else ids ! f)) \<and>
     set new = {v \<in> set vs. ids ! v = -1}"
  using assms
proof (induction vs arbitrary: ids q)
  case Nil
  then show ?case by simp
next
  case (Cons v vs)
  have v: "v < length ids" using Cons.prems by simp
  show ?case
  proof (cases "ids ! v = -1")
    case True
    let ?ids1 = "ids[v := int c]"
    have s1: "label_neighbour c v (ids, q) = Some (?ids1, q @ [v])"
      using v True by (simp add: label_neighbour_def)
    have "\<forall>v\<in>set vs. v < length ?ids1" using Cons.prems by simp
    from Cons.IH[OF this, of "q @ [v]"] obtain ids' new where
      r: "fold_option (label_neighbour c) vs (?ids1, q @ [v]) = Some (ids', (q @ [v]) @ new)"
      "length ids' = length ?ids1"
      "\<forall>f<length ?ids1. ids' ! f = (if f \<in> set vs \<and> ?ids1 ! f = -1 then int c else ?ids1 ! f)"
      "set new = {w \<in> set vs. ?ids1 ! w = -1}" by blast
    have a: "fold_option (label_neighbour c) (v # vs) (ids, q) = Some (ids', q @ (v # new))"
      using s1 r(1) by simp
    have b: "\<forall>f<length ids. ids' ! f = (if f \<in> set (v # vs) \<and> ids ! f = -1 then int c else ids ! f)"
      using r(3) v True by (auto simp: nth_list_update)
    have c: "set (v # new) = {w \<in> set (v # vs). ids ! w = -1}"
      using r(4) v True Cons.prems by (auto simp: nth_list_update split: if_splits)
    show ?thesis using a b c r(2) by (metis length_list_update)
  next
    case False
    have s1: "label_neighbour c v (ids, q) = Some (ids, q)"
      using v False by (simp add: label_neighbour_def)
    have "\<forall>v\<in>set vs. v < length ids" using Cons.prems by simp
    from Cons.IH[OF this, of q] obtain ids' new where
      r: "fold_option (label_neighbour c) vs (ids, q) = Some (ids', q @ new)"
      "length ids' = length ids"
      "\<forall>f<length ids. ids' ! f = (if f \<in> set vs \<and> ids ! f = -1 then int c else ids ! f)"
      "set new = {w \<in> set vs. ids ! w = -1}" by blast
    have a: "fold_option (label_neighbour c) (v # vs) (ids, q) = Some (ids', q @ new)"
      using s1 r(1) by simp
    have b: "\<forall>f<length ids. ids' ! f = (if f \<in> set (v # vs) \<and> ids ! f = -1 then int c else ids ! f)"
      using r(3) False by auto
    have c: "set new = {w \<in> set (v # vs). ids ! w = -1}"
      using r(4) False by auto
    show ?thesis using a b c r(2) by blast
  qed
qed

lemma bfs_inv_done:
  assumes "adj_ok F adj" "closed_labels adj ids0" "bfs_inv F adj ids0 s c ids q head" "\<not> head < length q"
  shows "bfs_post F adj ids0 s c ids"
proof -
  have hd: "head = length q" using assms(3,4) by (simp add: bfs_inv_def)
  have reach: "f \<in> set q" if "(s, f) \<in> (adj_rel adj)\<^sup>*" for f
    using that
  proof (induction rule: rtrancl_induct)
    case base
    then show ?case using assms(3) by (simp add: bfs_inv_def)
  next
    case (step y z)
    from step.IH obtain i where i: "i < length q" "q ! i = y" by (auto simp: in_set_conv_nth)
    have y: "y < F" "ids0 ! y = -1" using step.IH assms(3) by (auto simp: bfs_inv_def)
    have zadj: "z \<in> set (adj ! y)" using step.hyps(2) by (simp add: adj_rel_def)
    then have zF: "z < F" using assms(1) y(1) by (auto simp: adj_ok_def)
    have "ids ! z \<noteq> -1" using assms(3) i hd zadj by (auto simp: bfs_inv_def)
    moreover have "ids0 ! z = -1" using assms(2) step.hyps(2) y(2) by (auto simp: closed_labels_def)
    ultimately show ?case using assms(3) zF unfolding bfs_inv_def by metis
  qed
  show ?thesis
    unfolding bfs_post_def
  proof (intro conjI allI impI)
    show "length ids = F" using assms(3) by (simp add: bfs_inv_def)
  next
    fix f assume f: "f < F"
    show "ids ! f = (if ids0 ! f \<noteq> -1 then ids0 ! f else if (s, f) \<in> (adj_rel adj)\<^sup>* then int c else -1)"
    proof (cases "ids0 ! f \<noteq> -1")
      case True
      then show ?thesis using assms(3) f by (simp add: bfs_inv_def)
    next
      case False
      then have "ids ! f = (if f \<in> set q then int c else -1)" using assms(3) f by (simp add: bfs_inv_def)
      moreover have "f \<in> set q \<longleftrightarrow> (s, f) \<in> (adj_rel adj)\<^sup>*"
        using reach assms(3) by (auto simp: bfs_inv_def)
      ultimately show ?thesis using False by simp
    qed
  qed
qed

lemma bfs_inv_step:
  assumes ok: "adj_ok F adj" and inv: "bfs_inv F adj ids0 s c ids q head" and h: "head < length q"
    and len0: "length ids0 = F"
  shows "\<exists>ids' q'. fold_option (label_neighbour c) (adj ! (q ! head)) (ids, q) = Some (ids', q') \<and>
       bfs_inv F adj ids0 s c ids' q' (head + 1) \<and> q ! head < length adj"
proof -
  let ?u = "q ! head"
  have len: "length ids = F" using inv by (simp add: bfs_inv_def)
  have uq: "?u \<in> set q" using h by simp
  then have u: "?u < F" "ids0 ! ?u = -1" "(s, ?u) \<in> (adj_rel adj)\<^sup>*"
    using inv by (auto simp: bfs_inv_def)
  have ul: "?u < length adj" using ok u(1) by (simp add: adj_ok_def)
  have vs: "\<forall>v\<in>set (adj ! ?u). v < length ids" using ok u(1) len by (auto simp: adj_ok_def)
  from fold_label_result[OF vs, of c q] obtain ids' new where
    r: "fold_option (label_neighbour c) (adj ! ?u) (ids, q) = Some (ids', q @ new)"
    "length ids' = length ids"
    "\<forall>f<length ids. ids' ! f = (if f \<in> set (adj ! ?u) \<and> ids ! f = -1 then int c else ids ! f)"
    "set new = {v \<in> set (adj ! ?u). ids ! v = -1}" by blast
  have i1: "\<forall>f<F. ids0 ! f \<noteq> -1 \<longrightarrow> ids ! f = ids0 ! f"
    and i2: "\<forall>f<F. ids0 ! f = -1 \<longrightarrow> ids ! f = (if f \<in> set q then int c else -1)"
    and i3: "\<forall>f\<in>set q. f < F \<and> ids0 ! f = -1 \<and> (s, f) \<in> (adj_rel adj)\<^sup>*"
    and i4: "\<forall>i<head. \<forall>v\<in>set (adj ! (q ! i)). ids ! v \<noteq> -1"
    and i5: "s \<in> set q"
    using inv by (simp_all add: bfs_inv_def)
  have keep: "ids' ! f = ids ! f" if "f < F" "ids ! f \<noteq> -1" for f
    using r(3) that len by simp
  have n1: "\<forall>f<F. ids0 ! f \<noteq> -1 \<longrightarrow> ids' ! f = ids0 ! f"
    using i1 keep by simp
  have n2: "\<forall>f<F. ids0 ! f = -1 \<longrightarrow> ids' ! f = (if f \<in> set (q @ new) then int c else -1)"
  proof (intro allI impI)
    fix f assume f: "f < F" "ids0 ! f = -1"
    then have a: "ids ! f = (if f \<in> set q then int c else -1)" using i2 by simp
    show "ids' ! f = (if f \<in> set (q @ new) then int c else -1)"
      using a r(3) r(4) f(1) len by auto
  qed
  have n3: "\<forall>f\<in>set (q @ new). f < F \<and> ids0 ! f = -1 \<and> (s, f) \<in> (adj_rel adj)\<^sup>*"
  proof
    fix f assume "f \<in> set (q @ new)"
    then consider "f \<in> set q" | "f \<in> set new" by auto
    then show "f < F \<and> ids0 ! f = -1 \<and> (s, f) \<in> (adj_rel adj)\<^sup>*"
    proof cases
      case 1
      then show ?thesis using i3 by simp
    next
      case 2
      then have fa: "f \<in> set (adj ! ?u)" "ids ! f = -1" using r(4) by auto
      then have fF: "f < F" using vs len by auto
      have "ids0 ! f = -1" using i1 fF fa(2) by force
      moreover have "(?u, f) \<in> adj_rel adj" using fa(1) ul by (simp add: adj_rel_def)
      then have "(s, f) \<in> (adj_rel adj)\<^sup>*" using u(3) by (rule rtrancl_into_rtrancl[rotated])
      ultimately show ?thesis using fF by simp
    qed
  qed
  have n4: "\<forall>i<head + 1. \<forall>v\<in>set (adj ! ((q @ new) ! i)). ids' ! v \<noteq> -1"
  proof (intro allI impI ballI)
    fix i v assume i: "i < head + 1" and v: "v \<in> set (adj ! ((q @ new) ! i))"
    have qi: "(q @ new) ! i = q ! i" using i h by (simp add: nth_append)
    have qiF: "q ! i < F" using i h i3 by (metis Suc_eq_plus1 less_Suc_eq less_trans nth_mem)
    have vF: "v < F" using v qi qiF ok by (auto simp: adj_ok_def)
    show "ids' ! v \<noteq> -1"
    proof (cases "i < head")
      case True
      then have "ids ! v \<noteq> -1" using i4 v qi by auto
      then show ?thesis using keep vF by simp
    next
      case False
      then have "i = head" using i by simp
      then have "v \<in> set (adj ! ?u)" using v qi by simp
      then show ?thesis using r(3) vF len by auto
    qed
  qed
  have "bfs_inv F adj ids0 s c ids' (q @ new) (head + 1)"
    unfolding bfs_inv_def using r(2) len h i5 n1 n2 n3 n4 by simp
  then show ?thesis using r(1) ul by blast
qed

lemma island_bfs_correct:
  "adj_ok F adj \<Longrightarrow> closed_labels adj ids0 \<Longrightarrow> length ids0 = F \<Longrightarrow> bfs_inv F adj ids0 s c ids q head \<Longrightarrow>
     \<exists>ids'. island_bfs adj c ids q head = Some ids' \<and> bfs_post F adj ids0 s c ids'"
proof (induction adj c ids q head rule: island_bfs.induct)
  case (1 adj c ids q head)
  show ?case
  proof (cases "head < length q")
    case False
    then have "island_bfs adj c ids q head = Some ids" by (simp add: island_bfs.simps)
    then show ?thesis using bfs_inv_done[OF "1.prems"(1,2,4) False] by simp
  next
    case True
    from bfs_inv_step[OF "1.prems"(1,4) True "1.prems"(3)] obtain ids' q' where
      r: "fold_option (label_neighbour c) (adj ! (q ! head)) (ids, q) = Some (ids', q')"
      "bfs_inv F adj ids0 s c ids' q' (head + 1)" "q ! head < length adj" by blast
    from "1.IH"[OF True refl r(3) r(1) refl "1.prems"(1,2,3) r(2)]
    obtain ids'' where "island_bfs adj c ids' q' (head + 1) = Some ids''" "bfs_post F adj ids0 s c ids''"
      by blast
    then show ?thesis using True r(1,3) by (simp add: island_bfs.simps[of adj c ids q head])
  qed
qed



lemma closed_labels_rtrancl:
  assumes "closed_labels adj ids" "(f, g) \<in> (adj_rel adj)\<^sup>*"
  shows "(ids ! f = -1) = (ids ! g = -1)"
  using assms(2)
proof (induction rule: rtrancl_induct)
  case base
  then show ?case by simp
next
  case (step y z)
  then show ?case using assms(1) by (auto simp: closed_labels_def)
qed

lemma adj_rel_bound:
  assumes "adj_ok F adj" "(u, v) \<in> adj_rel adj"
  shows "u < F \<and> v < F"
  using assms by (auto simp: adj_ok_def adj_rel_def)

lemma island_from_step:
  assumes ok: "adj_ok F adj" and sy: "sym (adj_rel adj)" and k: "k < F"
    and inv: "outer_inv F adj k st"
  shows "\<exists>st'. island_from adj k st = Some st' \<and> outer_inv F adj (Suc k) st'"
proof -
  obtain ids cur where st: "st = (ids, cur)" by (cases st)
  have len: "length ids = F"
    and o1: "\<forall>f<F. f < k \<longrightarrow> ids ! f \<noteq> -1"
    and o2: "\<forall>f<F. ids ! f = -1 \<or> (0 \<le> ids ! f \<and> ids ! f < int cur)"
    and o3: "\<forall>f<F. \<forall>g<F. ids ! f \<noteq> -1 \<longrightarrow> ids ! g \<noteq> -1 \<longrightarrow>
            (ids ! f = ids ! g) = ((f, g) \<in> (adj_rel adj)\<^sup>*)"
    and cl: "closed_labels adj ids"
    using inv by (simp_all add: outer_inv_def st)
  show ?thesis
  proof (cases "ids ! k \<noteq> -1")
    case True
    then have "island_from adj k st = Some st" by (simp add: island_from_def st)
    moreover have "outer_inv F adj (Suc k) st"
      using len o1 o2 o3 cl True by (auto simp: outer_inv_def st less_Suc_eq)
    ultimately show ?thesis by blast
  next
    case False
    then have kun: "ids ! k = -1" by simp
    let ?E = "adj_rel adj"
    have binv: "bfs_inv F adj ids k cur (ids[k := int cur]) [k] 0"
      unfolding bfs_inv_def using len k kun by (auto simp: nth_list_update)
    from island_bfs_correct[OF ok cl len binv] obtain ids' where
      r: "island_bfs adj cur (ids[k := int cur]) [k] 0 = Some ids'" "bfs_post F adj ids k cur ids'"
      by blast
    have len': "length ids' = F"
      and post: "\<forall>f<F. ids' ! f = (if ids ! f \<noteq> -1 then ids ! f
                         else if (k, f) \<in> ?E\<^sup>* then int cur else -1)"
      using r(2) by (simp_all add: bfs_post_def)
    have res: "island_from adj k st = Some (ids', cur + 1)"
      using kun r(1) by (simp add: island_from_def st)
    have symstar: "sym (?E\<^sup>*)" using sy by (rule sym_rtrancl)
    have n1: "\<forall>f<F. f < Suc k \<longrightarrow> ids' ! f \<noteq> -1"
    proof (intro allI impI)
      fix f assume f: "f < F" "f < Suc k"
      show "ids' ! f \<noteq> -1"
      proof (cases "f = k")
        case True
        then show ?thesis using post k kun by simp
      next
        case False
        then have "ids ! f \<noteq> -1" using o1 f by simp
        then show ?thesis using post f by simp
      qed
    qed
    have n2: "\<forall>f<F. ids' ! f = -1 \<or> (0 \<le> ids' ! f \<and> ids' ! f < int (cur + 1))"
    proof (intro allI impI)
      fix f assume f: "f < F"
      from o2 f have "ids ! f = -1 \<or> (0 \<le> ids ! f \<and> ids ! f < int cur)" by simp
      then show "ids' ! f = -1 \<or> (0 \<le> ids' ! f \<and> ids' ! f < int (cur + 1))"
        using post f by auto
    qed
    have n3: "\<forall>f<F. \<forall>g<F. ids' ! f \<noteq> -1 \<longrightarrow> ids' ! g \<noteq> -1 \<longrightarrow>
            (ids' ! f = ids' ! g) = ((f, g) \<in> ?E\<^sup>*)"
    proof (intro allI impI)
      fix f g assume f: "f < F" and g: "g < F" and lf: "ids' ! f \<noteq> -1" and lg: "ids' ! g \<noteq> -1"
      have pf: "ids' ! f = (if ids ! f \<noteq> -1 then ids ! f else int cur)"
        and rf: "ids ! f = -1 \<Longrightarrow> (k, f) \<in> ?E\<^sup>*"
        using post f lf by (auto split: if_splits)
      have pg: "ids' ! g = (if ids ! g \<noteq> -1 then ids ! g else int cur)"
        and rg: "ids ! g = -1 \<Longrightarrow> (k, g) \<in> ?E\<^sup>*"
        using post g lg by (auto split: if_splits)
      have bf: "ids ! f \<noteq> -1 \<Longrightarrow> ids ! f < int cur" using o2 f by auto
      have bg: "ids ! g \<noteq> -1 \<Longrightarrow> ids ! g < int cur" using o2 g by auto
      show "(ids' ! f = ids' ! g) = ((f, g) \<in> ?E\<^sup>*)"
      proof (cases "ids ! f \<noteq> -1")
        case oldf: True
        show ?thesis
        proof (cases "ids ! g \<noteq> -1")
          case True
          then show ?thesis using oldf pf pg o3 f g by simp
        next
          case False
          then have "(f, g) \<notin> ?E\<^sup>*" using closed_labels_rtrancl[OF cl, of f g] oldf by auto
          then show ?thesis using pf pg oldf False bf by auto
        qed
      next
        case newf: False
        show ?thesis
        proof (cases "ids ! g \<noteq> -1")
          case True
          then have "(f, g) \<notin> ?E\<^sup>*" using closed_labels_rtrancl[OF cl, of f g] newf by auto
          then show ?thesis using pf pg newf True bg by auto
        next
          case False
          have "(f, k) \<in> ?E\<^sup>*" using rf newf symstar by (auto dest: symD)
          moreover have "(k, g) \<in> ?E\<^sup>*" using rg False by simp
          ultimately have "(f, g) \<in> ?E\<^sup>*" by (rule rtrancl_trans)
          then show ?thesis using pf pg newf False by simp
        qed
      qed
    qed
    have n4: "closed_labels adj ids'"
      unfolding closed_labels_def
    proof (intro ballI, clarify)
      fix u v assume uv: "(u, v) \<in> ?E"
      have b: "u < F" "v < F" using adj_rel_bound[OF ok uv] by simp_all
      have old: "(ids ! u = -1) = (ids ! v = -1)" using cl uv by (auto simp: closed_labels_def)
      have vu: "(v, u) \<in> ?E" using sy uv by (auto dest: symD)
      have reach: "((k, u) \<in> ?E\<^sup>*) = ((k, v) \<in> ?E\<^sup>*)"
        using uv vu by (auto intro: rtrancl_into_rtrancl)
      show "(ids' ! u = -1) = (ids' ! v = -1)"
        using post b old reach by auto
    qed
    have "outer_inv F adj (Suc k) (ids', cur + 1)"
      unfolding outer_inv_def using len' n1 n2 n3 n4 by simp
    then show ?thesis using res by blast
  qed
qed

text \<open>
  C1: on a topology whose face indices are in range, \<open>extract_islands\<close> returns an array
  with one island id per triangle, each id among \<open>0, ..., num_islands - 1\<close>, and two
  triangles have the same id exactly when a path of interior non-seam edges joins them.
\<close>

theorem extract_islands_components:
  assumes "faces_in_range (num_triangles mesh) topo"
  shows "\<exists>ids n. extract_islands mesh topo seam_edges = Some (ids, n) \<and>
     length ids = num_triangles mesh \<and>
     (\<forall>f<num_triangles mesh. 0 \<le> ids ! f \<and> ids ! f < int n) \<and>
     (\<forall>f<num_triangles mesh. \<forall>g<num_triangles mesh.
        (ids ! f = ids ! g) = ((f, g) \<in> (face_link topo seam_edges)\<^sup>*))"
proof -
  let ?F = "num_triangles mesh"
  from island_adjacency_ok[OF assms, of seam_edges] obtain adj where
    adj: "island_adjacency ?F topo seam_edges = Some adj" "adj_ok ?F adj"
    "adj_rel adj = face_link topo seam_edges" by blast
  have sy: "sym (adj_rel adj)" using adj(3) sym_face_link by simp
  have "\<exists>st. fold_option (island_from adj) [0..<?F] (replicate ?F (-1), 0) = Some st \<and>
      outer_inv ?F adj ?F st"
  proof (rule fold_option_upt_inv[where P="outer_inv ?F adj"])
    show "outer_inv ?F adj 0 (replicate ?F (-1), 0)"
      by (auto simp: outer_inv_def closed_labels_def dest: adj_rel_bound[OF adj(2)])
  next
    fix k t assume "k < ?F" "outer_inv ?F adj k t"
    then show "\<exists>t'. island_from adj k t = Some t' \<and> outer_inv ?F adj (Suc k) t'"
      using island_from_step[OF adj(2) sy] by simp
  qed
  then obtain ids n where
    r: "fold_option (island_from adj) [0..<?F] (replicate ?F (-1), 0) = Some (ids, n)"
    "outer_inv ?F adj ?F (ids, n)" by auto
  have e: "extract_islands mesh topo seam_edges = Some (ids, n)"
    using adj(1) r(1) by (simp add: extract_islands_def)
  have lab: "\<forall>f<?F. ids ! f \<noteq> -1" using r(2) by (simp add: outer_inv_def)
  have "length ids = ?F" using r(2) by (simp add: outer_inv_def)
  moreover have "\<forall>f<?F. 0 \<le> ids ! f \<and> ids ! f < int n"
    using r(2) lab by (auto simp: outer_inv_def)
  moreover have "\<forall>f<?F. \<forall>g<?F. (ids ! f = ids ! g) = ((f, g) \<in> (face_link topo seam_edges)\<^sup>*)"
    using r(2) lab adj(3) by (simp add: outer_inv_def)
  ultimately show ?thesis using e by blast
qed

theorem extract_islands_components_witness:
  "faces_in_range (num_triangles tetrahedron) tetrahedron_topology \<and>
   (\<exists>ids n. extract_islands tetrahedron tetrahedron_topology [0, 1, 2, 4, 5] = Some (ids, n) \<and>
     length ids = num_triangles tetrahedron \<and>
     (\<forall>f<num_triangles tetrahedron. 0 \<le> ids ! f \<and> ids ! f < int n) \<and>
     (\<forall>f<num_triangles tetrahedron. \<forall>g<num_triangles tetrahedron.
        (ids ! f = ids ! g) = ((f, g) \<in> (face_link tetrahedron_topology [0, 1, 2, 4, 5])\<^sup>*)))"
proof -
  have h: "faces_in_range (num_triangles tetrahedron) tetrahedron_topology"
    by (simp add: faces_in_range_def in_faces_def tetrahedron_def tetrahedron_topology_def)
  from extract_islands_components[OF h, of "[0, 1, 2, 4, 5]"] h show ?thesis by blast
qed

lemma extract_islands_tetrahedron:
  "extract_islands tetrahedron tetrahedron_topology [0, 1, 2, 4, 5] = Some ([0, 1, 0, 2], 3)"
  by code_simp

section \<open>Properties of the island packing\<close>

text \<open>The lowest-indexed face among the first \<open>k\<close> that has a valid island id and refers to
  vertex \<open>v\<close>.\<close>

lemma uv_bounds_snoc:
  "uv_bounds (ps @ [p]) = (case uv_bounds ps of (a, b, c, d) \<Rightarrow>
      (min_float a (fst p), max_float b (fst p), min_float c (snd p), max_float d (snd p)))"
  by (simp add: uv_bounds_def)

lemma bbox_ok_snoc:
  assumes "bbox_ok mesh island"
  shows "bbox_ok mesh (island\<lparr>vertex_indices := vertex_indices island @ [v],
                 min_u := min_float (min_u island) (fst (uvs mesh ! v)),
                 max_u := max_float (max_u island) (fst (uvs mesh ! v)),
                 min_v := min_float (min_v island) (snd (uvs mesh ! v)),
                 max_v := max_float (max_v island) (snd (uvs mesh ! v))\<rparr>)"
proof -
  have "uv_bounds (map (\<lambda>v. uvs mesh ! v) (vertex_indices island))
      = (min_u island, max_u island, min_v island, max_v island)"
    using assms by (simp add: bbox_ok_def)
  then show ?thesis by (simp add: bbox_ok_def uv_bounds_snoc)
qed

lemma assign_vertex_inv:
  assumes "islands_inv mesh n st" "v < num_vertices mesh" "j < n"
  shows "islands_inv mesh n (assign_vertex mesh j v st)"
proof -
  obtain vti islands where st: "st = (vti, islands)" by (cases st)
  have len: "length vti = num_vertices mesh" "length islands = n"
    using assms(1) by (simp_all add: islands_inv_def st)
  have I1: "island_id (islands ! i) = i" and I2: "distinct (vertex_indices (islands ! i))"
    and I3: "set (vertex_indices (islands ! i)) = {v. v < num_vertices mesh \<and> vti ! v = int i}"
    and I4: "bbox_ok mesh (islands ! i)" if "i < n" for i
    using assms(1) that by (simp_all add: islands_inv_def st)
  show ?thesis
  proof (cases "vti ! v = -1")
    case False
    then show ?thesis using assms(1) by (simp add: assign_vertex_def st)
  next
    case True
    define isl' where "isl' = (islands ! j)\<lparr>vertex_indices := vertex_indices (islands ! j) @ [v],
                 min_u := min_float (min_u (islands ! j)) (fst (uvs mesh ! v)),
                 max_u := max_float (max_u (islands ! j)) (fst (uvs mesh ! v)),
                 min_v := min_float (min_v (islands ! j)) (snd (uvs mesh ! v)),
                 max_v := max_float (max_v (islands ! j)) (snd (uvs mesh ! v))\<rparr>"
    have eq: "assign_vertex mesh j v st = (vti[v := int j], islands[j := isl'])"
      using True by (simp add: assign_vertex_def st Let_def isl'_def)
    have vnot: "v \<notin> set (vertex_indices (islands ! j))"
      using I3[OF assms(3)] True by simp
    have a1: "island_id isl' = j" using I1[OF assms(3)] by (simp add: isl'_def)
    have a2: "distinct (vertex_indices isl')" using I2[OF assms(3)] vnot by (simp add: isl'_def)
    have "set (vertex_indices isl') = insert v {w. w < num_vertices mesh \<and> vti ! w = int j}"
      using I3[OF assms(3)] by (simp add: isl'_def)
    also have "\<dots> = {w. w < num_vertices mesh \<and> vti[v := int j] ! w = int j}"
      using assms(2) len(1) by (auto simp: nth_list_update)
    finally have a3: "set (vertex_indices isl') = {w. w < num_vertices mesh \<and> vti[v := int j] ! w = int j}" .
    have a4: "bbox_ok mesh isl'" unfolding isl'_def by (rule bbox_ok_snoc[OF I4[OF assms(3)]])
    have other: "{w. w < num_vertices mesh \<and> vti[v := int j] ! w = int i}
          = {w. w < num_vertices mesh \<and> vti ! w = int i}" if "i \<noteq> j" for i
      using that True len(1) assms(2) by (auto simp: nth_list_update)
    have "island_id (islands[j := isl'] ! i) = i \<and>
           distinct (vertex_indices (islands[j := isl'] ! i)) \<and>
           set (vertex_indices (islands[j := isl'] ! i))
             = {w. w < num_vertices mesh \<and> vti[v := int j] ! w = int i} \<and>
           bbox_ok mesh (islands[j := isl'] ! i)" if i: "i < n" for i
    proof (cases "i = j")
      case True
      then have "islands[j := isl'] ! i = isl'" using assms(3) len(2) by simp
      then show ?thesis using a1 a2 a3 a4 True by simp
    next
      case False
      then have "islands[j := isl'] ! i = islands ! i" by simp
      then show ?thesis using I1[OF i] I2[OF i] I3[OF i] I4[OF i] other[OF False] by simp
    qed
    then show ?thesis unfolding eq islands_inv_def using len by simp
  qed
qed

lemma face_vertices_bound:
  assumes "mesh_ok mesh result" "f < num_triangles mesh" "v \<in> set (face_vertices mesh f)"
  shows "v < num_vertices mesh"
  using assms by (auto simp: mesh_ok_def)

lemma fold_assign_inv:
  assumes "islands_inv mesh n st" "\<forall>v\<in>set vs. v < num_vertices mesh" "j < n"
  shows "islands_inv mesh n (fold (assign_vertex mesh j) vs st)"
  using assms by (induction vs arbitrary: st) (simp_all add: assign_vertex_inv)

lemma valid_island_id_nat:
  "valid_island_id result f \<Longrightarrow> nat (face_island_ids result ! f) < nat (num_islands result) \<and>
     int (nat (face_island_ids result ! f)) = face_island_ids result ! f"
  by (auto simp: valid_island_id_def)

lemma collect_face_inv:
  assumes "mesh_ok mesh result" "f < num_triangles mesh" "islands_inv mesh (nat (num_islands result)) st"
  shows "islands_inv mesh (nat (num_islands result)) (collect_face mesh result f st)"
proof (cases "valid_island_id result f")
  case False
  then show ?thesis using assms(3) by (simp add: collect_face_def)
next
  case True
  have "\<forall>v\<in>set (face_vertices mesh f). v < num_vertices mesh"
    using face_vertices_bound[OF assms(1,2)] by simp
  from fold_assign_inv[OF assms(3) this, of "nat (face_island_ids result ! f)"]
  show ?thesis using True valid_island_id_nat[OF True] by (simp add: collect_face_def)
qed

lemma fold_inv:
  assumes "P s" "\<And>x s. x \<in> set xs \<Longrightarrow> P s \<Longrightarrow> P (f x s)"
  shows "P (fold f xs s)"
  using assms by (induction xs arbitrary: s) simp_all

lemma collect_islands_inv:
  assumes "mesh_ok mesh result"
  shows "islands_inv mesh (nat (num_islands result)) (collect_islands mesh result)"
  unfolding collect_islands_def
proof (rule fold_inv)
  show "islands_inv mesh (nat (num_islands result))
     (replicate (num_vertices mesh) (- 1), map init_island [0..<nat (num_islands result)])"
    by (auto simp: islands_inv_def init_island_def bbox_ok_def uv_bounds_def)
next
  fix x s assume "x \<in> set [0..<num_triangles mesh]" "islands_inv mesh (nat (num_islands result)) s"
  then show "islands_inv mesh (nat (num_islands result)) (collect_face mesh result x s)"
    using collect_face_inv[OF assms] by simp
qed










lemma uv_bounds_cover:
  "uv_bounds ps = (a, b, c, d) \<Longrightarrow> p \<in> set ps \<Longrightarrow>
     a \<le> fst p \<and> fst p \<le> b \<and> c \<le> snd p \<and> snd p \<le> d"
proof (induction ps arbitrary: a b c d rule: rev_induct)
  case Nil
  then show ?case by simp
next
  case (snoc x xs)
  obtain a' b' c' d' where r: "uv_bounds xs = (a', b', c', d')" by (metis prod_cases4)
  have eq: "a = min_float a' (fst x)" "b = max_float b' (fst x)"
    "c = min_float c' (snd x)" "d = max_float d' (snd x)"
    using snoc.prems(1) r by (simp_all add: uv_bounds_snoc)
  show ?case
  proof (cases "p = x")
    case True
    then show ?thesis using eq by (simp add: min_float_def max_float_def)
  next
    case False
    then have "p \<in> set xs" using snoc.prems(2) by simp
    from snoc.IH[OF r this] show ?thesis using eq by (auto simp: min_float_def max_float_def)
  qed
qed

lemma uv_bounds_Nil_iff:
  "uv_bounds ps = (a, b, c, d) \<Longrightarrow> a \<noteq> FLT_MAX \<Longrightarrow> ps \<noteq> []"
  by (auto simp: uv_bounds_def)

lemma set_dimensions_ok:
  assumes "island_id island < n" "distinct (vertex_indices island)"
    "set (vertex_indices island) = {v. v < num_vertices mesh \<and> vti ! v = int (island_id island)}"
    "bbox_ok mesh island"
  shows "island_ok mesh vti n (set_dimensions island)"
proof (cases "min_u island = FLT_MAX")
  case True
  then show ?thesis using assms by (simp add: island_ok_def set_dimensions_def bbox_ok_def)
next
  case False
  have b: "uv_bounds (map (\<lambda>v. uvs mesh ! v) (vertex_indices island))
      = (min_u island, max_u island, min_v island, max_v island)"
    using assms(4) by (simp add: bbox_ok_def)
  from uv_bounds_Nil_iff[OF b False] obtain p where
    "p \<in> set (map (\<lambda>v. uvs mesh ! v) (vertex_indices island))"
    by (metis list.set_intros(1) neq_Nil_conv)
  from uv_bounds_cover[OF b this] have "min_u island \<le> max_u island" "min_v island \<le> max_v island"
    by auto
  then show ?thesis using assms False by (simp add: island_ok_def set_dimensions_def bbox_ok_def)
qed

lemma dims_islands_ok:
  assumes "mesh_ok mesh result"
  shows "\<forall>island\<in>set (map set_dimensions (snd (collect_islands mesh result))).
     island_ok mesh (fst (collect_islands mesh result)) (nat (num_islands result)) island"
    and "distinct (map island_id (map set_dimensions (snd (collect_islands mesh result))))"
proof -
  obtain vti islands where c: "collect_islands mesh result = (vti, islands)"
    by (cases "collect_islands mesh result")
  let ?n = "nat (num_islands result)"
  have inv: "islands_inv mesh ?n (vti, islands)" using collect_islands_inv[OF assms] c by simp
  then have len: "length islands = ?n" by (simp add: islands_inv_def)
  have I: "island_id (islands ! i) = i \<and> distinct (vertex_indices (islands ! i)) \<and>
      set (vertex_indices (islands ! i)) = {v. v < num_vertices mesh \<and> vti ! v = int i} \<and>
      bbox_ok mesh (islands ! i)" if "i < ?n" for i
    using inv that by (simp add: islands_inv_def)
  show "\<forall>island\<in>set (map set_dimensions (snd (collect_islands mesh result))).
     island_ok mesh (fst (collect_islands mesh result)) (nat (num_islands result)) island"
  proof
    fix island assume "island \<in> set (map set_dimensions (snd (collect_islands mesh result)))"
    then obtain i where i: "i < ?n" "island = set_dimensions (islands ! i)"
      using c len by (auto simp: in_set_conv_nth)
    show "island_ok mesh (fst (collect_islands mesh result)) ?n island"
      unfolding i(2) c fst_conv
      by (rule set_dimensions_ok) (use I[OF i(1)] i(1) in simp_all)
  qed
  have ids: "map island_id (map set_dimensions islands) = [0..<?n]"
  proof (rule nth_equalityI)
    show "length (map island_id (map set_dimensions islands)) = length [0..<?n]" using len by simp
  next
    fix i assume "i < length (map island_id (map set_dimensions islands))"
    then have "i < ?n" using len by simp
    then show "map island_id (map set_dimensions islands) ! i = [0..<?n] ! i"
      using I[of i] len by (simp add: set_dimensions_def)
  qed
  show "distinct (map island_id (map set_dimensions (snd (collect_islands mesh result))))"
    using ids c by simp
qed

lemma place_island_erase:
  "erase_targets (fst (place_island margin island s)) = erase_targets island"
  by (simp add: place_island_def erase_targets_def Let_def)

lemma shelf_pack_erase:
  "map erase_targets (fst (shelf_pack margin xs s)) = map erase_targets xs"
proof (induction xs arbitrary: s)
  case Nil
  then show ?case by simp
next
  case (Cons x xs)
  show ?case
  proof (cases "width x = 0")
    case True
    obtain r t where r: "shelf_pack margin xs s = (r, t)" by (cases "shelf_pack margin xs s")
    then show ?thesis using True Cons.IH[of s] by simp
  next
    case False
    obtain x' s1 where p: "place_island margin x s = (x', s1)" by (cases "place_island margin x s")
    obtain r t where r: "shelf_pack margin xs s1 = (r, t)" by (cases "shelf_pack margin xs s1")
    have "erase_targets x' = erase_targets x" using place_island_erase[of margin x s] p by simp
    then show ?thesis using False p r Cons.IH[of s1] by simp
  qed
qed

lemma island_ok_erase:
  "island_ok mesh vti n (erase_targets island) = island_ok mesh vti n island"
  by (simp add: island_ok_def erase_targets_def bbox_ok_def)

lemma island_id_erase: "island_id (erase_targets island) = island_id island"
  by (simp add: erase_targets_def)

lemma erase_transfer:
  assumes "map erase_targets ys = map erase_targets xs"
  shows "(\<forall>y\<in>set ys. island_ok mesh vti n y) = (\<forall>x\<in>set xs. island_ok mesh vti n x)"
    and "map island_id ys = map island_id xs"
proof -
  have "(\<forall>y\<in>set ys. island_ok mesh vti n y) = (\<forall>y\<in>set (map erase_targets ys). island_ok mesh vti n y)"
    by (simp add: island_ok_erase)
  also have "\<dots> = (\<forall>y\<in>set (map erase_targets xs). island_ok mesh vti n y)" using assms by simp
  also have "\<dots> = (\<forall>x\<in>set xs. island_ok mesh vti n x)" by (simp add: island_ok_erase)
  finally show "(\<forall>y\<in>set ys. island_ok mesh vti n y) = (\<forall>x\<in>set xs. island_ok mesh vti n x)" .
  have "map island_id ys = map island_id (map erase_targets ys)" by (simp add: island_id_erase comp_def)
  also have "\<dots> = map island_id (map erase_targets xs)" using assms by simp
  also have "\<dots> = map island_id xs" by (simp add: island_id_erase comp_def)
  finally show "map island_id ys = map island_id xs" .
qed

lemma place_island_props:
  assumes "0 \<le> margin" "shelf_ok s" "0 \<le> width x" "0 \<le> height x"
    and "place_island margin x s = (x', s')"
  shows "shelf_ok s'" "packed_max_w s \<le> packed_max_w s'" "packed_max_h s \<le> packed_max_h s'"
    "0 \<le> target_x x'" "0 \<le> target_y x'"
    "target_x x' + width x' \<le> packed_max_w s'" "target_y x' + height x' \<le> packed_max_h s'"
    "width x' = width x" "height x' = height x"
  using assms
  by (auto simp: place_island_def shelf_ok_def Let_def max_float_def split: if_splits)

lemma shelf_pack_bounds:
  assumes "0 \<le> margin" "shelf_ok s" "\<forall>x\<in>set xs. 0 \<le> width x \<and> 0 \<le> height x"
    and "shelf_pack margin xs s = (ys, s')"
  shows "shelf_ok s' \<and> packed_max_w s \<le> packed_max_w s' \<and> packed_max_h s \<le> packed_max_h s' \<and>
     (\<forall>y\<in>set ys. width y \<noteq> 0 \<longrightarrow>
        0 \<le> target_x y \<and> 0 \<le> target_y y \<and>
        target_x y + width y \<le> packed_max_w s' \<and> target_y y + height y \<le> packed_max_h s')"
  using assms(2-)
proof (induction xs arbitrary: s ys s')
  case Nil
  then show ?case by simp
next
  case (Cons x xs)
  show ?case
  proof (cases "width x = 0")
    case True
    obtain r t where r: "shelf_pack margin xs s = (r, t)" by (cases "shelf_pack margin xs s")
    have eq: "ys = x # r" "s' = t" using Cons.prems(3) True r by simp_all
    from Cons.IH[OF Cons.prems(1) _ r] Cons.prems(2) show ?thesis using eq True by simp
  next
    case False
    obtain x' s1 where p: "place_island margin x s = (x', s1)" by (cases "place_island margin x s")
    obtain r t where r: "shelf_pack margin xs s1 = (r, t)" by (cases "shelf_pack margin xs s1")
    have eq: "ys = x' # r" "s' = t" using Cons.prems(3) False p r by simp_all
    have wx: "0 \<le> width x" "0 \<le> height x" using Cons.prems(2) by simp_all
    note pp = place_island_props[OF assms(1) Cons.prems(1) wx p]
    from Cons.IH[OF pp(1) _ r] Cons.prems(2)
    have ih: "shelf_ok t" "packed_max_w s1 \<le> packed_max_w t" "packed_max_h s1 \<le> packed_max_h t"
      "\<forall>y\<in>set r. width y \<noteq> 0 \<longrightarrow>
        0 \<le> target_x y \<and> 0 \<le> target_y y \<and>
        target_x y + width y \<le> packed_max_w t \<and> target_y y + height y \<le> packed_max_h t"
      by simp_all
    show ?thesis unfolding eq using ih pp by auto
  qed
qed

lemma init_shelf_ok: "shelf_ok init_shelf"
  by (simp add: shelf_ok_def init_shelf_def)

lemma island_sort_ok_set: "island_sort_ok srt \<Longrightarrow> set (srt xs) = set xs"
  unfolding island_sort_ok_def by (metis set_mset_mset)

lemma island_sort_ok_ids:
  assumes "island_sort_ok srt" "distinct (map island_id xs)"
  shows "distinct (map island_id (srt xs))"
proof -
  have "mset (map island_id (srt xs)) = mset (map island_id xs)"
    using assms(1) unfolding island_sort_ok_def by (metis mset_map)
  then show ?thesis using assms(2) by (metis mset_eq_imp_distinct_iff)
qed

text \<open>The facts about the packed islands that the claims rest on.\<close>

lemma packed_islands_facts:
  assumes ok: "mesh_ok mesh result" and so: "island_sort_ok srt" and m: "0 \<le> margin"
    and p: "packed_islands srt mesh result margin = (ys, s')"
  shows "\<forall>y\<in>set ys. island_ok mesh (fst (collect_islands mesh result)) (nat (num_islands result)) y"
    and "distinct (map island_id ys)"
    and "shelf_ok s'"
    and "\<forall>y\<in>set ys. width y \<noteq> 0 \<longrightarrow>
        0 \<le> target_x y \<and> 0 \<le> target_y y \<and>
        target_x y + width y \<le> packed_max_w s' \<and> target_y y + height y \<le> packed_max_h s'"
proof -
  let ?ds = "map set_dimensions (snd (collect_islands mesh result))"
  let ?vti = "fst (collect_islands mesh result)"
  let ?n = "nat (num_islands result)"
  have sp: "shelf_pack margin (srt ?ds) init_shelf = (ys, s')" using p by (simp add: packed_islands_def)
  have d1: "\<forall>x\<in>set (srt ?ds). island_ok mesh ?vti ?n x"
    using dims_islands_ok(1)[OF ok] island_sort_ok_set[OF so, of ?ds] by simp
  have d2: "distinct (map island_id (srt ?ds))"
    by (rule island_sort_ok_ids[OF so dims_islands_ok(2)[OF ok]])
  have er: "map erase_targets ys = map erase_targets (srt ?ds)"
    using shelf_pack_erase[of margin "srt ?ds" init_shelf] sp by simp
  show "\<forall>y\<in>set ys. island_ok mesh ?vti ?n y" using erase_transfer(1)[OF er] d1 by simp
  show "distinct (map island_id ys)" using erase_transfer(2)[OF er] d2 by simp
  have wh: "\<forall>x\<in>set (srt ?ds). 0 \<le> width x \<and> 0 \<le> height x"
    using d1 by (simp add: island_ok_def)
  from shelf_pack_bounds[OF m init_shelf_ok wh sp]
  show "shelf_ok s'" and "\<forall>y\<in>set ys. width y \<noteq> 0 \<longrightarrow>
        0 \<le> target_x y \<and> 0 \<le> target_y y \<and>
        target_x y + width y \<le> packed_max_w s' \<and> target_y y + height y \<le> packed_max_h s'"
    by simp_all
qed

lemma packed_islands_facts_any_margin:
  assumes ok: "mesh_ok mesh result" and so: "island_sort_ok srt"
    and p: "packed_islands srt mesh result margin = (ys, s')"
  shows "\<forall>y\<in>set ys. island_ok mesh (fst (collect_islands mesh result)) (nat (num_islands result)) y"
    and "distinct (map island_id ys)"
proof -
  let ?ds = "map set_dimensions (snd (collect_islands mesh result))"
  let ?vti = "fst (collect_islands mesh result)"
  let ?n = "nat (num_islands result)"
  have sp: "shelf_pack margin (srt ?ds) init_shelf = (ys, s')" using p by (simp add: packed_islands_def)
  have d1: "\<forall>x\<in>set (srt ?ds). island_ok mesh ?vti ?n x"
    using dims_islands_ok(1)[OF ok] island_sort_ok_set[OF so, of ?ds] by simp
  have d2: "distinct (map island_id (srt ?ds))"
    by (rule island_sort_ok_ids[OF so dims_islands_ok(2)[OF ok]])
  have er: "map erase_targets ys = map erase_targets (srt ?ds)"
    using shelf_pack_erase[of margin "srt ?ds" init_shelf] sp by simp
  show "\<forall>y\<in>set ys. island_ok mesh ?vti ?n y" using erase_transfer(1)[OF er] d1 by simp
  show "distinct (map island_id ys)" using erase_transfer(2)[OF er] d2 by simp
qed

lemma length_fold_move_vertex [simp]:
  "length (fold (move_vertex ox oy) vs uv) = length uv"
  by (induction vs arbitrary: uv) (simp_all add: move_vertex_def)

lemma fold_move_vertex_nth:
  assumes "distinct vs" "\<forall>v\<in>set vs. v < length uv" "w < length uv"
  shows "fold (move_vertex ox oy) vs uv ! w
     = (if w \<in> set vs then (fst (uv ! w) + ox, snd (uv ! w) + oy) else uv ! w)"
  using assms
proof (induction vs arbitrary: uv)
  case Nil
  then show ?case by simp
next
  case (Cons v vs)
  let ?uv1 = "move_vertex ox oy v uv"
  have l: "length ?uv1 = length uv" by (simp add: move_vertex_def)
  have ih: "fold (move_vertex ox oy) vs ?uv1 ! w
     = (if w \<in> set vs then (fst (?uv1 ! w) + ox, snd (?uv1 ! w) + oy) else ?uv1 ! w)"
    using Cons.IH[of ?uv1] Cons.prems l by simp
  have one: "?uv1 ! w = (if w = v then (fst (uv ! w) + ox, snd (uv ! w) + oy) else uv ! w)"
    using Cons.prems by (simp add: move_vertex_def nth_list_update)
  show ?case using ih one Cons.prems(1) by auto
qed

lemma length_move_island [simp]: "length (move_island y uv) = length uv"
  by (simp add: move_island_def Let_def)

lemma length_fold_move_island [simp]: "length (fold move_island ys uv) = length uv"
  by (induction ys arbitrary: uv) simp_all

lemma move_island_nth:
  assumes "distinct (vertex_indices y)" "\<forall>v\<in>set (vertex_indices y). v < length uv" "w < length uv"
  shows "move_island y uv ! w
     = (if width y \<noteq> 0 \<and> w \<in> set (vertex_indices y) then moved_uv y (uv ! w) else uv ! w)"
  using fold_move_vertex_nth[OF assms]
  by (simp add: move_island_def Let_def moved_uv_def)

lemma island_ok_owner:
  "island_ok mesh vti n y \<Longrightarrow> w \<in> set (vertex_indices y) \<Longrightarrow>
     w < num_vertices mesh \<and> vti ! w = int (island_id y)"
  by (simp add: island_ok_def)

lemma fold_move_island_nth:
  assumes "\<forall>y\<in>set ys. island_ok mesh vti n y" "distinct (map island_id ys)"
    and "length uv = num_vertices mesh" "w < num_vertices mesh"
  shows "fold move_island ys uv ! w
     = (case find (\<lambda>y. width y \<noteq> 0 \<and> w \<in> set (vertex_indices y)) ys of
          None \<Rightarrow> uv ! w | Some y \<Rightarrow> moved_uv y (uv ! w))"
  using assms
proof (induction ys arbitrary: uv)
  case Nil
  then show ?case by simp
next
  case (Cons y ys)
  let ?P = "\<lambda>y. width y \<noteq> 0 \<and> w \<in> set (vertex_indices y)"
  have oky: "island_ok mesh vti n y" using Cons.prems(1) by simp
  have d: "distinct (vertex_indices y)" using oky by (simp add: island_ok_def)
  have b: "\<forall>v\<in>set (vertex_indices y). v < length uv"
    using oky Cons.prems(3) by (simp add: island_ok_def)
  have one: "move_island y uv ! w = (if ?P y then moved_uv y (uv ! w) else uv ! w)"
    using move_island_nth[OF d b] Cons.prems(3,4) by simp
  have ih: "fold move_island ys (move_island y uv) ! w
     = (case find ?P ys of None \<Rightarrow> move_island y uv ! w | Some y' \<Rightarrow> moved_uv y' (move_island y uv ! w))"
    using Cons.IH[of "move_island y uv"] Cons.prems by simp
  show ?case
  proof (cases "?P y")
    case True
    have "\<not> ?P y'" if "y' \<in> set ys" for y'
    proof
      assume "?P y'"
      then have "vti ! w = int (island_id y')"
        using island_ok_owner[of mesh vti n y' w] Cons.prems(1) that by simp
      moreover have "vti ! w = int (island_id y)"
        using island_ok_owner[OF oky] True by simp
      ultimately have "island_id y' = island_id y" by simp
      then show False using Cons.prems(2) that by (metis distinct.simps(2) image_eqI list.simps(9) set_map)
    qed
    then have "find ?P ys = None" by (simp add: find_None_iff)
    then show ?thesis using ih one True by simp
  next
    case False
    then have same: "move_island y uv ! w = uv ! w" using one by auto
    have "find ?P (y # ys) = find ?P ys" using False by auto
    then show ?thesis using ih same by (simp split: option.splits)
  qed
qed

lemma fold_scale_vertex:
  assumes "n \<le> length uv"
  shows "length (fold (scale_vertex sc) [0..<n] uv) = length uv \<and>
     (\<forall>w<length uv. fold (scale_vertex sc) [0..<n] uv ! w
        = (if w < n then (fst (uv ! w) * sc, snd (uv ! w) * sc) else uv ! w))"
  using assms
proof (induction n)
  case 0
  then show ?case by simp
next
  case (Suc n)
  then show ?case by (auto simp: scale_vertex_def nth_list_update less_Suc_eq)
qed

text \<open>The island among \<open>ys\<close> whose move reaches vertex \<open>v\<close>, if any.\<close>

lemma pack_final_uv:
  assumes ok: "mesh_ok mesh result" and so: "island_sort_ok srt" and n: "1 < num_islands result"
    and p: "packed_islands srt mesh result margin = (ys, s')" and v: "v < num_vertices mesh"
  shows "uvs (pack_uv_islands srt mesh result margin) ! v
     = scaled_uv (pack_scale s')
         (case moving_island ys v of None \<Rightarrow> uvs mesh ! v | Some y \<Rightarrow> moved_uv y (uvs mesh ! v))"
proof -
  note f = packed_islands_facts_any_margin[OF ok so p]
  have len: "length (uvs mesh) = num_vertices mesh" using ok by (simp add: mesh_ok_def)
  have mv: "fold move_island ys (uvs mesh) ! v
      = (case moving_island ys v of None \<Rightarrow> uvs mesh ! v | Some y \<Rightarrow> moved_uv y (uvs mesh ! v))"
    unfolding moving_island_def by (rule fold_move_island_nth[OF f len v])
  have l2: "num_vertices mesh \<le> length (fold move_island ys (uvs mesh))" using len by simp
  have "uvs (pack_uv_islands srt mesh result margin)
      = fold (scale_vertex (pack_scale s')) [0..<num_vertices mesh] (fold move_island ys (uvs mesh))"
    using n p by (simp add: pack_uv_islands_def Let_def)
  then show ?thesis
    using fold_scale_vertex[OF l2, of "pack_scale s'"] v len mv by (simp add: scaled_uv_def)
qed

lemma pack_scale_pos:
  assumes "shelf_ok s" shows "0 < pack_scale s"
  using assms by (auto simp: pack_scale_def shelf_ok_def max_float_def)


text \<open>How often step 4 adds an offset to the UV of vertex \<open>v\<close>: once for every occurrence of
  \<open>v\<close> in the vertex list of an island that is not skipped.\<close>

lemma moving_island_unique:
  assumes "\<forall>y\<in>set ys. island_ok mesh vti n y" "distinct (map island_id ys)"
    and "y \<in> set ys" "width y \<noteq> 0" "v \<in> set (vertex_indices y)"
  shows "moving_island ys v = Some y"
proof -
  let ?P = "\<lambda>y. width y \<noteq> 0 \<and> v \<in> set (vertex_indices y)"
  have "find ?P ys \<noteq> None" using assms(3,4,5) by (auto simp: find_None_iff)
  then obtain y' where y': "find ?P ys = Some y'" by auto
  then have in': "y' \<in> set ys" "?P y'" by (auto simp: find_Some_iff)
  have "vti ! v = int (island_id y')" using island_ok_owner[of mesh vti n y' v] assms(1) in' by simp
  moreover have "vti ! v = int (island_id y)" using island_ok_owner[of mesh vti n y v] assms(1,3,5) by simp
  ultimately have "island_id y' = island_id y" by simp
  then have "y' = y" using assms(2,3) in'(1) by (meson distinct_map inj_onD)
  then show ?thesis using y' by (simp add: moving_island_def)
qed

lemma island_ok_bbox:
  assumes "island_ok mesh vti n y" "v \<in> set (vertex_indices y)"
  shows "min_u y \<le> fst (uvs mesh ! v) \<and> fst (uvs mesh ! v) \<le> max_u y \<and>
         min_v y \<le> snd (uvs mesh ! v) \<and> snd (uvs mesh ! v) \<le> max_v y"
proof -
  have b: "uv_bounds (map (\<lambda>v. uvs mesh ! v) (vertex_indices y)) = (min_u y, max_u y, min_v y, max_v y)"
    using assms(1) by (simp add: island_ok_def bbox_ok_def)
  have "uvs mesh ! v \<in> set (map (\<lambda>v. uvs mesh ! v) (vertex_indices y))" using assms(2) by simp
  from uv_bounds_cover[OF b this] show ?thesis .
qed






text \<open>The shelf on which each island of the sorted list is placed. The source keeps no
  shelf counter; this one replays the loop of step 3 and counts the shelves it opens,
  starting from shelf \<open>k\<close>.\<close>

lemma place_island_targets:
  assumes "place_island margin x s = (x', s1)"
  shows "current_x s1 = target_x x' + width x + margin" "current_y s1 = target_y x'"
    "width x' = width x"
    "\<not> starts_new_shelf x s \<Longrightarrow> target_x x' = current_x s \<and> target_y x' = current_y s"
  using assms by (auto simp: place_island_def Let_def split: if_splits)

lemma shelf_separation:
  assumes m: "0 \<le> margin"
  shows "\<forall>x\<in>set xs. 0 \<le> width x \<Longrightarrow> shelf_pack margin xs s = (ys, s') \<Longrightarrow>
     length ys = length xs \<and> length (shelf_numbers margin xs s k) = length xs \<and>
     (\<forall>i<length xs. k \<le> shelf_numbers margin xs s k ! i) \<and>
     (\<forall>i<length xs. width (ys ! i) \<noteq> 0 \<and> shelf_numbers margin xs s k ! i = k \<longrightarrow>
         current_x s \<le> target_x (ys ! i) \<and> target_y (ys ! i) = current_y s) \<and>
     (\<forall>j<length xs. \<forall>i<j. width (ys ! i) \<noteq> 0 \<and> width (ys ! j) \<noteq> 0 \<and>
         shelf_numbers margin xs s k ! i = shelf_numbers margin xs s k ! j \<longrightarrow>
         target_x (ys ! i) + width (ys ! i) + margin \<le> target_x (ys ! j) \<and>
         target_y (ys ! i) = target_y (ys ! j))"
proof (induction xs arbitrary: s k ys s')
  case Nil
  then show ?case by simp
next
  case (Cons x xs)
  show ?case
  proof (cases "width x = 0")
    case True
    obtain r t where r: "shelf_pack margin xs s = (r, t)" by (cases "shelf_pack margin xs s")
    have eq: "ys = x # r" using Cons.prems(2) True r by simp
    have ks: "shelf_numbers margin (x # xs) s k = k # shelf_numbers margin xs s k" using True by simp
    from Cons.IH[OF _ r, of k] Cons.prems(1)
    have ih: "length r = length xs" "length (shelf_numbers margin xs s k) = length xs"
      "\<forall>i<length xs. k \<le> shelf_numbers margin xs s k ! i"
      "\<forall>i<length xs. width (r ! i) \<noteq> 0 \<and> shelf_numbers margin xs s k ! i = k \<longrightarrow>
         current_x s \<le> target_x (r ! i) \<and> target_y (r ! i) = current_y s"
      "\<forall>j<length xs. \<forall>i<j. width (r ! i) \<noteq> 0 \<and> width (r ! j) \<noteq> 0 \<and>
         shelf_numbers margin xs s k ! i = shelf_numbers margin xs s k ! j \<longrightarrow>
         target_x (r ! i) + width (r ! i) + margin \<le> target_x (r ! j) \<and>
         target_y (r ! i) = target_y (r ! j)"
      by simp_all
    show ?thesis
      unfolding eq ks
    proof (intro conjI allI impI)
      show "length (x # r) = length (x # xs)" using ih(1) by simp
      show "length (k # shelf_numbers margin xs s k) = length (x # xs)" using ih(2) by simp
    next
      fix i assume "i < length (x # xs)"
      then show "k \<le> (k # shelf_numbers margin xs s k) ! i" using ih(3) by (cases i) simp_all
    next
      fix i assume "i < length (x # xs)"
        and "width ((x # r) ! i) \<noteq> 0 \<and> (k # shelf_numbers margin xs s k) ! i = k"
      then show "current_x s \<le> target_x ((x # r) ! i)" "target_y ((x # r) ! i) = current_y s"
        using ih(4) True by (cases i; simp)+
    next
      fix j i assume j: "j < length (x # xs)" and i: "i < j"
        and h: "width ((x # r) ! i) \<noteq> 0 \<and> width ((x # r) ! j) \<noteq> 0 \<and>
          (k # shelf_numbers margin xs s k) ! i = (k # shelf_numbers margin xs s k) ! j"
      obtain j' where j': "j = Suc j'" using i by (cases j) simp_all
      show "target_x ((x # r) ! i) + width ((x # r) ! i) + margin \<le> target_x ((x # r) ! j)"
        "target_y ((x # r) ! i) = target_y ((x # r) ! j)"
        using ih(5) True h i j j' by (cases i; simp)+
    qed
  next
    case False
    obtain x' s1 where p: "place_island margin x s = (x', s1)" by (cases "place_island margin x s")
    obtain r t where r: "shelf_pack margin xs s1 = (r, t)" by (cases "shelf_pack margin xs s1")
    define k' where "k' = (if starts_new_shelf x s then Suc k else k)"
    have eq: "ys = x' # r" using Cons.prems(2) False p r by simp
    have ks: "shelf_numbers margin (x # xs) s k = k' # shelf_numbers margin xs s1 k'"
      using False p by (simp add: k'_def Let_def)
    note pt = place_island_targets[OF p]
    have wx: "0 \<le> width x" using Cons.prems(1) by simp
    have kk: "k \<le> k'" by (simp add: k'_def)
    from Cons.IH[OF _ r, of k'] Cons.prems(1)
    have ih: "length r = length xs" "length (shelf_numbers margin xs s1 k') = length xs"
      "\<forall>i<length xs. k' \<le> shelf_numbers margin xs s1 k' ! i"
      "\<forall>i<length xs. width (r ! i) \<noteq> 0 \<and> shelf_numbers margin xs s1 k' ! i = k' \<longrightarrow>
         current_x s1 \<le> target_x (r ! i) \<and> target_y (r ! i) = current_y s1"
      "\<forall>j<length xs. \<forall>i<j. width (r ! i) \<noteq> 0 \<and> width (r ! j) \<noteq> 0 \<and>
         shelf_numbers margin xs s1 k' ! i = shelf_numbers margin xs s1 k' ! j \<longrightarrow>
         target_x (r ! i) + width (r ! i) + margin \<le> target_x (r ! j) \<and>
         target_y (r ! i) = target_y (r ! j)"
      by simp_all
    have same: "current_x s \<le> current_x s1 \<and> current_y s1 = current_y s" if "k' = k"
    proof -
      have "\<not> starts_new_shelf x s" using that by (simp add: k'_def split: if_splits)
      then show ?thesis using pt wx m by simp
    qed
    show ?thesis
      unfolding eq ks
    proof (intro conjI allI impI)
      show "length (x' # r) = length (x # xs)" using ih(1) by simp
      show "length (k' # shelf_numbers margin xs s1 k') = length (x # xs)" using ih(2) by simp
    next
      fix i assume "i < length (x # xs)"
      then show "k \<le> (k' # shelf_numbers margin xs s1 k') ! i"
        using ih(3) kk by (cases i) (simp_all add: le_trans[OF kk])
    next
      fix i assume i: "i < length (x # xs)"
        and h: "width ((x' # r) ! i) \<noteq> 0 \<and> (k' # shelf_numbers margin xs s1 k') ! i = k"
      show "current_x s \<le> target_x ((x' # r) ! i)" "target_y ((x' # r) ! i) = current_y s"
      proof -
        have "current_x s \<le> target_x ((x' # r) ! i) \<and> target_y ((x' # r) ! i) = current_y s"
        proof (cases i)
          case 0
          then have "k' = k" using h by simp
          then have "\<not> starts_new_shelf x s" by (simp add: k'_def split: if_splits)
          then show ?thesis using pt 0 by simp
        next
          case (Suc i')
          then have i': "i' < length xs" using i by simp
          have "k' \<le> shelf_numbers margin xs s1 k' ! i'" using ih(3) i' by simp
          then have e: "k' = k" "shelf_numbers margin xs s1 k' ! i' = k'" using h Suc kk by simp_all
          from ih(4) i' h Suc e(2) have "current_x s1 \<le> target_x (r ! i') \<and> target_y (r ! i') = current_y s1"
            by simp
          then show ?thesis using same[OF e(1)] Suc by simp
        qed
        then show "current_x s \<le> target_x ((x' # r) ! i)" "target_y ((x' # r) ! i) = current_y s"
          by simp_all
      qed
    next
      fix j i assume j: "j < length (x # xs)" and i: "i < j"
        and h: "width ((x' # r) ! i) \<noteq> 0 \<and> width ((x' # r) ! j) \<noteq> 0 \<and>
          (k' # shelf_numbers margin xs s1 k') ! i = (k' # shelf_numbers margin xs s1 k') ! j"
      obtain j' where j': "j = Suc j'" using i by (cases j) simp_all
      then have jl: "j' < length xs" using j by simp
      have "target_x ((x' # r) ! i) + width ((x' # r) ! i) + margin \<le> target_x ((x' # r) ! j) \<and>
        target_y ((x' # r) ! i) = target_y ((x' # r) ! j)"
      proof (cases i)
        case 0
        then have "shelf_numbers margin xs s1 k' ! j' = k'" "width (r ! j') \<noteq> 0" using h j' by simp_all
        then have "current_x s1 \<le> target_x (r ! j') \<and> target_y (r ! j') = current_y s1"
          using ih(4) jl by simp
        then show ?thesis using pt 0 j' by simp
      next
        case (Suc i')
        then show ?thesis using ih(5) h i j' jl by simp
      qed
      then show "target_x ((x' # r) ! i) + width ((x' # r) ! i) + margin \<le> target_x ((x' # r) ! j)"
        "target_y ((x' # r) ! i) = target_y ((x' # r) ! j)" by simp_all
    qed
  qed
qed


lemma island_sort_ok_by_height: "island_sort_ok by_height"
  by (simp add: island_sort_ok_def by_height_def rev_map[symmetric])

text \<open>
  C6 (amended): for a margin that is not negative, two islands placed on the same shelf
  have the same shelf offset, the later one starts at least the margin to the right of the
  earlier one's box, and in the final UVs every vertex of the later island lies at least
  \<open>margin * scale\<close> to the right of every vertex of the earlier one, where \<open>scale\<close> is the
  positive global scale factor of step 5.
\<close>

theorem pack_same_shelf_separated:
  assumes ok: "mesh_ok mesh result" and so: "island_sort_ok srt" and m: "0 \<le> margin"
    and n: "1 < num_islands result"
    and p: "packed_islands srt mesh result margin = (ys, s')"
    and ij: "i < j" "j < length ys" and w: "width (ys ! i) \<noteq> 0" "width (ys ! j) \<noteq> 0"
    and sh: "island_shelves srt mesh result margin ! i = island_shelves srt mesh result margin ! j"
  shows "target_x (ys ! i) + width (ys ! i) + margin \<le> target_x (ys ! j) \<and>
     target_y (ys ! i) = target_y (ys ! j) \<and>
     0 < pack_scale s' \<and>
     (\<forall>a\<in>set (vertex_indices (ys ! i)). \<forall>b\<in>set (vertex_indices (ys ! j)).
        fst (uvs (pack_uv_islands srt mesh result margin) ! a) + margin * pack_scale s'
          \<le> fst (uvs (pack_uv_islands srt mesh result margin) ! b))"
proof -
  let ?ds = "srt (map set_dimensions (snd (collect_islands mesh result)))"
  let ?vti = "fst (collect_islands mesh result)"
  let ?n = "nat (num_islands result)"
  let ?uv' = "uvs (pack_uv_islands srt mesh result margin)"
  note f = packed_islands_facts[OF ok so m p]
  have sp: "shelf_pack margin ?ds init_shelf = (ys, s')" using p by (simp add: packed_islands_def)
  have wd: "\<forall>x\<in>set ?ds. 0 \<le> width x"
    using dims_islands_ok(1)[OF ok] island_sort_ok_set[OF so] by (simp add: island_ok_def)
  from shelf_separation[OF m wd sp, of 0]
  have len: "length ys = length ?ds"
    and sep: "\<forall>j<length ?ds. \<forall>i<j. width (ys ! i) \<noteq> 0 \<and> width (ys ! j) \<noteq> 0 \<and>
         shelf_numbers margin ?ds init_shelf 0 ! i = shelf_numbers margin ?ds init_shelf 0 ! j \<longrightarrow>
         target_x (ys ! i) + width (ys ! i) + margin \<le> target_x (ys ! j) \<and>
         target_y (ys ! i) = target_y (ys ! j)"
    by simp_all
  have t: "target_x (ys ! i) + width (ys ! i) + margin \<le> target_x (ys ! j)"
    "target_y (ys ! i) = target_y (ys ! j)"
    using sep ij w sh len by (simp_all add: island_shelves_def)
  have sc: "0 < pack_scale s'" by (rule pack_scale_pos[OF f(3)])
  have yi: "ys ! i \<in> set ys" and yj: "ys ! j \<in> set ys" using ij by simp_all
  have fin: "fst (?uv' ! a) + margin * pack_scale s' \<le> fst (?uv' ! b)"
    if a: "a \<in> set (vertex_indices (ys ! i))" and b: "b \<in> set (vertex_indices (ys ! j))" for a b
  proof -
    have oki: "island_ok mesh ?vti ?n (ys ! i)" and okj: "island_ok mesh ?vti ?n (ys ! j)"
      using f(1) yi yj by simp_all
    have aV: "a < num_vertices mesh" and bV: "b < num_vertices mesh"
      using island_ok_owner[OF oki a] island_ok_owner[OF okj b] by simp_all
    have ea: "?uv' ! a = scaled_uv (pack_scale s') (moved_uv (ys ! i) (uvs mesh ! a))"
      using pack_final_uv[OF ok so n p aV] moving_island_unique[OF f(1,2) yi w(1) a] by simp
    have eb: "?uv' ! b = scaled_uv (pack_scale s') (moved_uv (ys ! j) (uvs mesh ! b))"
      using pack_final_uv[OF ok so n p bV] moving_island_unique[OF f(1,2) yj w(2) b] by simp
    have di: "width (ys ! i) = max_u (ys ! i) - min_u (ys ! i)"
      using oki w(1) by (simp add: island_ok_def)
    have "fst (moved_uv (ys ! i) (uvs mesh ! a)) \<le> target_x (ys ! i) + width (ys ! i)"
      using island_ok_bbox[OF oki a] di by (simp add: moved_uv_def)
    moreover have "target_x (ys ! j) \<le> fst (moved_uv (ys ! j) (uvs mesh ! b))"
      using island_ok_bbox[OF okj b] by (simp add: moved_uv_def)
    ultimately have "fst (moved_uv (ys ! i) (uvs mesh ! a)) + margin \<le> fst (moved_uv (ys ! j) (uvs mesh ! b))"
      using t(1) by simp
    then have "(fst (moved_uv (ys ! i) (uvs mesh ! a)) + margin) * pack_scale s'
        \<le> fst (moved_uv (ys ! j) (uvs mesh ! b)) * pack_scale s'"
      using sc by (simp add: mult_right_mono)
    then show ?thesis unfolding ea eb by (simp add: scaled_uv_def distrib_right)
  qed
  show ?thesis using t sc fin by blast
qed


lemma shelf_mesh_ok: "mesh_ok shelf_mesh three_islands"
  by (simp add: mesh_ok_def shelf_mesh_def three_islands_def face_vertices_def upt_conv_Cons)

lemma thin_mesh_ok: "mesh_ok thin_mesh two_islands"
  by (simp add: mesh_ok_def thin_mesh_def two_islands_def face_vertices_def upt_conv_Cons)

lemma shelf_mesh_packed:
  "packed_islands by_height shelf_mesh three_islands (1/10) =
     ([\<lparr>island_id = 0, min_u = 0, max_u = 2/5, min_v = 0, max_v = 1, width = 2/5, height = 1,
         target_x = 0, target_y = 0, vertex_indices = [0, 1, 2]\<rparr>,
       \<lparr>island_id = 1, min_u = 0, max_u = 2/5, min_v = 0, max_v = 9/10, width = 2/5, height = 9/10,
         target_x = 1/2, target_y = 0, vertex_indices = [3, 4, 5]\<rparr>,
       \<lparr>island_id = 2, min_u = 0, max_u = 2/5, min_v = 0, max_v = 4/5, width = 2/5, height = 4/5,
         target_x = 0, target_y = 11/10, vertex_indices = [6, 7, 8]\<rparr>],
      \<lparr>current_x = 1/2, current_y = 11/10, shelf_height = 4/5,
        packed_max_w = 9/10, packed_max_h = 19/10\<rparr>)"
  by code_simp

lemma shelf_mesh_shelves: "island_shelves by_height shelf_mesh three_islands (1/10) = [0, 0, 1]"
  by code_simp


text \<open>
  C6 (as stated, refuted): with margin \<open>1/10\<close> the first two islands share shelf 0 and the
  third opens shelf 1, so the packed height is \<open>19/10\<close> and everything is scaled by
  \<open>10/19\<close>. In the final UVs the first island ends at \<open>u = 4/19\<close> and the second starts at
  \<open>u = 5/19\<close>: the gap is \<open>1/19\<close>, less than the margin.
\<close>

theorem pack_same_shelf_margin_counterexample:
  "mesh_ok shelf_mesh three_islands \<and>
   island_shelves by_height shelf_mesh three_islands (1/10) = [0, 0, 1] \<and>
   map vertex_indices (fst (packed_islands by_height shelf_mesh three_islands (1/10)))
     = [[0, 1, 2], [3, 4, 5], [6, 7, 8]] \<and>
   map fst (uvs (pack_uv_islands by_height shelf_mesh three_islands (1/10)))
     = [0, 4/19, 0,  5/19, 9/19, 5/19,  0, 4/19, 0] \<and>
   (5/19 - 4/19 :: real) < 1/10"
  by code_simp

theorem pack_same_shelf_separated_witness:
  "mesh_ok shelf_mesh three_islands \<and> island_sort_ok by_height \<and> (0::real) \<le> 1/10 \<and>
   1 < num_islands three_islands \<and> (0::nat) < 1 \<and>
   1 < length (fst (packed_islands by_height shelf_mesh three_islands (1/10))) \<and>
   width (fst (packed_islands by_height shelf_mesh three_islands (1/10)) ! 0) \<noteq> 0 \<and>
   width (fst (packed_islands by_height shelf_mesh three_islands (1/10)) ! 1) \<noteq> 0 \<and>
   island_shelves by_height shelf_mesh three_islands (1/10) ! 0
     = island_shelves by_height shelf_mesh three_islands (1/10) ! 1 \<and>
   target_x (fst (packed_islands by_height shelf_mesh three_islands (1/10)) ! 0)
     + width (fst (packed_islands by_height shelf_mesh three_islands (1/10)) ! 0) + 1/10
     \<le> target_x (fst (packed_islands by_height shelf_mesh three_islands (1/10)) ! 1) \<and>
   fst (uvs (pack_uv_islands by_height shelf_mesh three_islands (1/10)) ! 1)
     + 1/10 * pack_scale (snd (packed_islands by_height shelf_mesh three_islands (1/10)))
     \<le> fst (uvs (pack_uv_islands by_height shelf_mesh three_islands (1/10)) ! 3)"
proof -
  note p = shelf_mesh_packed
  have h2: "(0::real) \<le> 1/10" by simp
  have h3: "1 < num_islands three_islands" by (simp add: three_islands_def)
  have r: "target_x (fst (packed_islands by_height shelf_mesh three_islands (1/10)) ! 0)
       + width (fst (packed_islands by_height shelf_mesh three_islands (1/10)) ! 0) + 1/10
       \<le> target_x (fst (packed_islands by_height shelf_mesh three_islands (1/10)) ! 1) \<and>
     target_y (fst (packed_islands by_height shelf_mesh three_islands (1/10)) ! 0)
       = target_y (fst (packed_islands by_height shelf_mesh three_islands (1/10)) ! 1) \<and>
     0 < pack_scale (snd (packed_islands by_height shelf_mesh three_islands (1/10))) \<and>
     (\<forall>a\<in>set (vertex_indices (fst (packed_islands by_height shelf_mesh three_islands (1/10)) ! 0)).
      \<forall>b\<in>set (vertex_indices (fst (packed_islands by_height shelf_mesh three_islands (1/10)) ! 1)).
        fst (uvs (pack_uv_islands by_height shelf_mesh three_islands (1/10)) ! a)
          + 1/10 * pack_scale (snd (packed_islands by_height shelf_mesh three_islands (1/10)))
          \<le> fst (uvs (pack_uv_islands by_height shelf_mesh three_islands (1/10)) ! b))"
    by (rule pack_same_shelf_separated[OF shelf_mesh_ok island_sort_ok_by_height h2 h3])
       (simp_all add: p shelf_mesh_shelves)
  have va: "1 \<in> set (vertex_indices (fst (packed_islands by_height shelf_mesh three_islands (1/10)) ! 0))"
    and vb: "3 \<in> set (vertex_indices (fst (packed_islands by_height shelf_mesh three_islands (1/10)) ! 1))"
    by (simp_all add: p)
  have rest: "1 < length (fst (packed_islands by_height shelf_mesh three_islands (1/10)))"
    "width (fst (packed_islands by_height shelf_mesh three_islands (1/10)) ! 0) \<noteq> 0"
    "width (fst (packed_islands by_height shelf_mesh three_islands (1/10)) ! 1) \<noteq> 0"
    "island_shelves by_height shelf_mesh three_islands (1/10) ! 0
       = island_shelves by_height shelf_mesh three_islands (1/10) ! 1"
    by (simp_all add: p shelf_mesh_shelves)
  show ?thesis using r va vb rest shelf_mesh_ok island_sort_ok_by_height h2 h3 by blast
qed





section \<open>Properties of the conformal parameterization\<close>

subsection \<open>The local vertex mapping\<close>

lemma add_local_vertex_inv:
  assumes "local_map_inv st"
  shows "local_map_inv (add_local_vertex v st) \<and>
     set (snd (add_local_vertex v st)) = insert v (set (snd st))"
proof -
  obtain g l where st: "st = (g, l)" by (cases st)
  have inv: "distinct l" "dom g = set l" "\<forall>i<length l. g (l ! i) = Some i"
    using assms by (simp_all add: local_map_inv_def st)
  show ?thesis
  proof (cases "g v = None")
    case False
    then have "v \<in> set l" using inv(2) by auto
    then show ?thesis using False assms by (auto simp: add_local_vertex_def st)
  next
    case True
    then have vl: "v \<notin> set l" using inv(2) by auto
    have eq: "add_local_vertex v st = (g(v \<mapsto> length l), l @ [v])"
      using True by (simp add: add_local_vertex_def st)
    have "\<forall>i<length (l @ [v]). (g(v \<mapsto> length l)) ((l @ [v]) ! i) = Some i"
    proof (intro allI impI)
      fix i assume i: "i < length (l @ [v])"
      show "(g(v \<mapsto> length l)) ((l @ [v]) ! i) = Some i"
      proof (cases "i < length l")
        case True
        then have "l ! i \<noteq> v" using vl by (metis nth_mem)
        then show ?thesis using True inv(3) by (simp add: nth_append)
      next
        case False
        then have "i = length l" using i by simp
        then show ?thesis by simp
      qed
    qed
    then show ?thesis unfolding eq local_map_inv_def using inv vl by (auto simp: st)
  qed
qed

lemma fold_add_local_vertex_inv:
  "local_map_inv st \<Longrightarrow>
     local_map_inv (fold add_local_vertex vs st) \<and>
     set (snd (fold add_local_vertex vs st)) = set vs \<union> set (snd st)"
proof (induction vs arbitrary: st)
  case Nil
  then show ?case by simp
next
  case (Cons v vs)
  from add_local_vertex_inv[OF Cons.prems, of v]
  have a: "local_map_inv (add_local_vertex v st)"
    "set (snd (add_local_vertex v st)) = insert v (set (snd st))" by simp_all
  from Cons.IH[OF a(1)] a(2) show ?case by auto
qed

lemma local_vertex_map_fold_inv:
  "local_map_inv st \<Longrightarrow>
     local_map_inv (fold (\<lambda>f st. fold add_local_vertex (face_vertices mesh f) st) fs st) \<and>
     set (snd (fold (\<lambda>f st. fold add_local_vertex (face_vertices mesh f) st) fs st))
       = island_vertices mesh fs \<union> set (snd st)"
proof (induction fs arbitrary: st)
  case Nil
  then show ?case by (simp add: island_vertices_def)
next
  case (Cons f fs)
  from fold_add_local_vertex_inv[OF Cons.prems, of "face_vertices mesh f"]
  have a: "local_map_inv (fold add_local_vertex (face_vertices mesh f) st)"
    "set (snd (fold add_local_vertex (face_vertices mesh f) st)) = set (face_vertices mesh f) \<union> set (snd st)"
    by simp_all
  from Cons.IH[OF a(1)] a(2) show ?case by (auto simp: island_vertices_def)
qed

lemma local_vertex_map_inv:
  "local_map_inv (local_vertex_map mesh face_indices)"
  "set (snd (local_vertex_map mesh face_indices)) = island_vertices mesh face_indices"
  using local_vertex_map_fold_inv[of "(Map.empty, [])" mesh face_indices]
  by (simp_all add: local_vertex_map_def local_map_inv_def)

lemma local_vertex_count:
  "length (snd (local_vertex_map mesh face_indices)) = card (island_vertices mesh face_indices)"
proof -
  have "distinct (snd (local_vertex_map mesh face_indices))"
    using local_vertex_map_inv(1)[of mesh face_indices]
    by (cases "local_vertex_map mesh face_indices") (simp add: local_map_inv_def)
  then show ?thesis using local_vertex_map_inv(2)[of mesh face_indices] distinct_card by fastforce
qed

lemma length_normalize [simp]:
  "length (normalize_uvs_to_unit_square uv) = length uv"
  by (simp add: normalize_uvs_to_unit_square_def Let_def split: prod.splits)

text \<open>
  C5: \<open>lscm_parameterize\<close> returns no result exactly when the island has fewer than 3
  distinct vertices or the factorization or the solve fails; a result has one UV per
  distinct vertex that the triangles of the island refer to.
\<close>

theorem lscm_parameterize_result:
  "(lscm_parameterize factorize solve assemble vertex_distance mesh face_indices = None) =
     (card (island_vertices mesh face_indices) < 3 \<or>
      (case lscm_system assemble vertex_distance mesh face_indices of (A_final, b) \<Rightarrow>
         case factorize (2 * card (island_vertices mesh face_indices)) A_final of
           None \<Rightarrow> True
         | Some solver \<Rightarrow> solve solver b = None)) \<and>
   (\<forall>uv. lscm_parameterize factorize solve assemble vertex_distance mesh face_indices = Some uv \<longrightarrow>
      length uv = card (island_vertices mesh face_indices))"
proof -
  have e: "face_indices = [] \<Longrightarrow> card (island_vertices mesh face_indices) < 3"
    by (simp add: island_vertices_def)
  show ?thesis
    using e
    by (auto simp: lscm_parameterize_def lscm_solve_def Let_def local_vertex_count extract_uvs_def
        split: option.splits prod.splits)
qed

lemma quad_local_vertices: "snd (local_vertex_map quad [0, 1]) = [0, 1, 2, 3]"
  by code_simp

lemma quad_island_card: "card (island_vertices quad [0, 1]) = 4"
  unfolding local_vertex_count[symmetric] quad_local_vertices by simp

lemma quad_parameterized:
  "lscm_parameterize identity_factorize identity_solve coupled_assemble index_distance quad [0, 1]
     = Some [(3/4, 0), (0, 0), (3/4, 0), (1, 0)]"
  by code_simp

lemma collapsed_fails:
  "lscm_parameterize identity_factorize identity_solve coupled_assemble index_distance collapsed [0] = None"
  by code_simp

theorem lscm_parameterize_result_witness:
  "lscm_parameterize identity_factorize identity_solve coupled_assemble index_distance collapsed [0] = None \<and>
   lscm_parameterize identity_factorize identity_solve coupled_assemble index_distance quad [0, 1]
     = Some [(3/4, 0), (0, 0), (3/4, 0), (1, 0)] \<and>
   length [(3/4 :: real, 0 :: real), (0, 0), (3/4, 0), (1, 0)] = card (island_vertices quad [0, 1])"
  using lscm_parameterize_result[of identity_factorize identity_solve coupled_assemble index_distance quad "[0, 1]"]
    quad_parameterized collapsed_fails
  by blast

subsection \<open>The pinned vertices\<close>

lemma fold_inv2:
  assumes "P s" "\<And>x s. x \<in> set xs \<Longrightarrow> P s \<Longrightarrow> P (f x s)"
  shows "P (fold f xs s)"
  using assms by (induction xs arbitrary: s) simp_all

lemma Edge_endpoints: "fst (Edge a b) \<in> {a, b} \<and> snd (Edge a b) \<in> {a, b}"
  by (simp add: Edge_def)

lemma triangle_edges_endpoints:
  assumes "e \<in> set (triangle_edges (triangles mesh ! f))"
  shows "fst e \<in> set (face_vertices mesh f) \<and> snd e \<in> set (face_vertices mesh f)"
proof -
  obtain v0 v1 v2 where t: "triangles mesh ! f = (v0, v1, v2)" by (cases "triangles mesh ! f")
  show ?thesis using assms Edge_endpoints[of v0 v1] Edge_endpoints[of v1 v2] Edge_endpoints[of v2 v0]
    by (auto simp: triangle_edges_def face_vertices_def t)
qed

lemma count_edge_keys: "fst ` set (count_edge e m) = insert e (fst ` set m)"
proof (cases "map_of m e")
  case None
  then show ?thesis by (simp add: count_edge_def set_insort_key)
next
  case (Some c)
  then have "e \<in> fst ` set m" by (metis map_of_eq_None_iff option.distinct(1))
  moreover have "fst ` set (map (\<lambda>(k, c). if k = e then (k, c + 1) else (k, c)) m) = fst ` set m"
    by (force simp: image_iff split: prod.splits if_splits)
  ultimately show ?thesis using Some by (auto simp: count_edge_def)
qed

lemma fold_count_edge_keys: "fst ` set (fold count_edge es m) = set es \<union> fst ` set m"
  by (induction es arbitrary: m) (auto simp: count_edge_keys)

lemma island_edge_counts_keys_gen:
  "fst ` set (fold (\<lambda>f edge_counts. fold count_edge (triangle_edges (triangles mesh ! f)) edge_counts) fs m)
     = (\<Union>f\<in>set fs. set (triangle_edges (triangles mesh ! f))) \<union> fst ` set m"
  by (induction fs arbitrary: m) (auto simp: fold_count_edge_keys)

lemma boundary_vertices_in_island:
  "set (find_boundary_vertices mesh fs) \<subseteq> island_vertices mesh fs"
proof
  fix v assume v: "v \<in> set (find_boundary_vertices mesh fs)"
  then have ne: "fs \<noteq> []" by (auto simp: find_boundary_vertices_def)
  from v ne obtain item where item: "item \<in> set (island_edge_counts mesh fs)"
    "v = fst (fst item) \<or> v = snd (fst item)"
    by (auto simp: find_boundary_vertices_def split: if_splits)
  have "fst item \<in> fst ` set (island_edge_counts mesh fs)" using item(1) by simp
  then obtain f where f: "f \<in> set fs" "fst item \<in> set (triangle_edges (triangles mesh ! f))"
    unfolding island_edge_counts_def island_edge_counts_keys_gen by auto
  from triangle_edges_endpoints[OF f(2)] item(2) f(1)
  show "v \<in> island_vertices mesh fs" by (auto simp: island_vertices_def)
qed

lemma boundary_vertices_distinct: "distinct (find_boundary_vertices mesh fs)"
  by (simp add: find_boundary_vertices_def)

lemma map_at_local:
  assumes "local_map_inv (g, l)" "v \<in> set l"
  shows "map_at g v < length l \<and> l ! map_at g v = v"
proof -
  from assms(2) obtain i where i: "i < length l" "l ! i = v" by (auto simp: in_set_conv_nth)
  then have "g v = Some i" using assms(1) by (auto simp: local_map_inv_def)
  then show ?thesis using i by (simp add: map_at_def)
qed

lemma map_at_inj:
  assumes "local_map_inv (g, l)" "v \<in> set l" "w \<in> set l" "map_at g v = map_at g w"
  shows "v = w"
  using map_at_local[OF assms(1,2)] map_at_local[OF assms(1,3)] assms(4) by metis

lemma farther_pair_ok:
  assumes inv: "local_map_inv (g, l)" and bv: "distinct bv" "set bv \<subseteq> set l"
    and ik: "i < k" "k < length bv" and ok: "pins_ok (length l) (snd st)"
  shows "pins_ok (length l) (snd (farther_pair d g l bv i k st))"
proof -
  obtain md p1 p2 where st: "st = (md, p1, p2)" by (cases st)
  have i: "bv ! i \<in> set l" and k: "bv ! k \<in> set l" using bv(2) ik by auto
  have ne: "bv ! i \<noteq> bv ! k" using bv(1) ik by (simp add: nth_eq_iff_index_eq)
  have "map_at g (bv ! i) \<noteq> map_at g (bv ! k)" using map_at_inj[OF inv i k] ne by auto
  then show ?thesis using ok map_at_local[OF inv i] map_at_local[OF inv k]
    by (simp add: farther_pair_def st Let_def pins_ok_def)
qed

lemma farther_from_first_ok:
  assumes "1 \<le> i" "i < n" "1 \<le> snd st \<and> snd st < n"
  shows "1 \<le> snd (farther_from_first d l 0 i st) \<and> snd (farther_from_first d l 0 i st) < n"
  using assms by (cases st) (simp add: farther_from_first_def Let_def)

lemma choose_pins_ok:
  assumes n: "3 \<le> length (snd (local_vertex_map mesh fs))"
  shows "pins_ok (length (snd (local_vertex_map mesh fs))) (choose_pins d mesh fs)"
proof -
  obtain g l where lv: "local_vertex_map mesh fs = (g, l)" by (cases "local_vertex_map mesh fs")
  have inv: "local_map_inv (g, l)" using local_vertex_map_inv(1)[of mesh fs] lv by simp
  have setl: "set l = island_vertices mesh fs" using local_vertex_map_inv(2)[of mesh fs] lv by simp
  have n3: "3 \<le> length l" using n lv by simp
  let ?bv = "find_boundary_vertices mesh fs"
  let ?nb = "length ?bv"
  have bvd: "distinct ?bv" by (rule boundary_vertices_distinct)
  have bvl: "set ?bv \<subseteq> set l" using boundary_vertices_in_island setl by simp
  show ?thesis
  proof (cases "?nb \<ge> 2")
    case True
    let ?loop = "fold (\<lambda>i st. fold (farther_pair d g l ?bv i) [i + 1..<?nb] st) [0..<?nb]
                   (-1, 0, length l - 1)"
    have init: "pins_ok (length l) (snd (-1 :: real, 0 :: nat, length l - 1))"
      using n3 by (cases l) (auto simp: pins_ok_def)
    have loop: "pins_ok (length l) (snd ?loop)"
    proof (rule fold_inv2[where P="\<lambda>st. pins_ok (length l) (snd st)", OF init])
      fix i and st :: "real \<times> nat \<times> nat"
      assume i: "i \<in> set [0..<?nb]" and st: "pins_ok (length l) (snd st)"
      show "pins_ok (length l) (snd (fold (farther_pair d g l ?bv i) [i + 1..<?nb] st))"
      proof (rule fold_inv2[where P="\<lambda>st. pins_ok (length l) (snd st)", OF st])
        fix k and st' :: "real \<times> nat \<times> nat"
        assume "k \<in> set [i + 1..<?nb]" "pins_ok (length l) (snd st')"
        then show "pins_ok (length l) (snd (farther_pair d g l ?bv i k st'))"
          using farther_pair_ok[OF inv bvd bvl, of i k st' d] by simp
      qed
    qed
    have big: "pins_ok (length l) (map_at g (?bv ! 0), map_at g (?bv ! (?nb div 2)))" if "?nb > 200"
    proof -
      have h: "0 < ?nb div 2" "?nb div 2 < ?nb" "0 < ?nb" using that by auto
      have a: "?bv ! 0 \<in> set l" and b: "?bv ! (?nb div 2) \<in> set l" using bvl h by auto
      have "?bv ! 0 \<noteq> ?bv ! (?nb div 2)" using bvd h by (simp add: nth_eq_iff_index_eq)
      then have "map_at g (?bv ! 0) \<noteq> map_at g (?bv ! (?nb div 2))" using map_at_inj[OF inv a b] by auto
      then show ?thesis using map_at_local[OF inv a] map_at_local[OF inv b] by (simp add: pins_ok_def)
    qed
    obtain md p1 p2 where r: "?loop = (md, p1, p2)" by (cases ?loop)
    have "choose_pins d mesh fs
        = (if ?nb > 200 then (map_at g (?bv ! 0), map_at g (?bv ! (?nb div 2))) else (p1, p2))"
      using True r by (simp add: choose_pins_def lv Let_def)
    then show ?thesis using loop big r lv by (simp split: if_splits)
  next
    case False
    let ?loop = "fold (farther_from_first d l 0) [1..<length l] (-1, length l - 1)"
    have "1 \<le> snd ?loop \<and> snd ?loop < length l"
    proof (rule fold_inv2[where P="\<lambda>st. 1 \<le> snd st \<and> snd st < length l"])
      show "1 \<le> snd (-1 :: real, length l - 1) \<and> snd (-1 :: real, length l - 1) < length l"
        using n3 by auto
    next
      fix i and st :: "real \<times> nat"
      assume "i \<in> set [1..<length l]" "1 \<le> snd st \<and> snd st < length l"
      then show "1 \<le> snd (farther_from_first d l 0 i st) \<and> snd (farther_from_first d l 0 i st) < length l"
        using farther_from_first_ok[of i "length l" st d l] by simp
    qed
    moreover obtain md p2 where r: "?loop = (md, p2)" by (cases ?loop)
    moreover have "choose_pins d mesh fs = (0, p2)"
      using False r by (simp add: choose_pins_def lv Let_def)
    ultimately show ?thesis using lv n3 by (auto simp: pins_ok_def)
  qed
qed

subsection \<open>The rows of the pinned variables\<close>

lemma prune_pinned_entry:
  assumes "(r, c, v) \<in> set (prune_pinned pv A)" "r \<in> set pv \<or> c \<in> set pv"
  shows "r = c \<and> v = 1"
  using assms by (auto simp: prune_pinned_def Let_def split: if_splits)

lemma prune_pinned_Cons:
  "prune_pinned pv ((r, c, v) # A) =
     (if r \<in> set pv \<or> c \<in> set pv then (if r = c then [(r, c, 1)] else []) else [(r, c, v)])
     @ prune_pinned pv A"
  by (simp add: prune_pinned_def Let_def)

lemma prune_pinned_row:
  assumes "p \<in> set pv"
  shows "filter (\<lambda>entry. fst entry = p) (prune_pinned pv A)
       = map (\<lambda>_. (p, p, 1)) (filter (\<lambda>entry. (fst entry, fst (snd entry)) = (p, p)) A)"
proof (induction A)
  case Nil
  show ?case by (simp add: prune_pinned_def)
next
  case (Cons e A)
  obtain r c v where e: "e = (r, c, v)" by (cases e)
  show ?case using Cons assms unfolding e prune_pinned_Cons by auto
qed

lemma distinct_filter_key:
  "distinct (map k xs) \<Longrightarrow> length (filter (\<lambda>e. k e = a) xs) \<le> 1"
proof (induction xs)
  case Nil
  then show ?case by simp
next
  case (Cons e xs)
  show ?case
  proof (cases "k e = a")
    case True
    then have "a \<notin> k ` set xs" using Cons.prems by auto
    then have "filter (\<lambda>e. k e = a) xs = []" by (auto simp: filter_empty_conv)
    then show ?thesis using True by simp
  next
    case False
    then show ?thesis using Cons by simp
  qed
qed

lemma row_times_filter:
  "row_times A x r = sum_list (map (\<lambda>(r', c, v). v * x ! c) (filter (\<lambda>entry. fst entry = r) A))"
  unfolding row_times_def by (induction A) auto

lemma row_times_cong:
  assumes "\<And>r' c v. (r', c, v) \<in> set A \<Longrightarrow> x ! c = y ! c"
  shows "row_times A x r = row_times A y r"
proof -
  have "map (\<lambda>(r', c, v). if r' = r then v * x ! c else 0) A
      = map (\<lambda>(r', c, v). if r' = r then v * y ! c else 0) A"
    using assms by (intro map_cong) auto
  then show ?thesis unfolding row_times_def by (rule arg_cong)
qed

lemma pinned_solution:
  assumes ok: "sparse_ok m A" and p: "p \<in> set pv" "p < m"
    and sol: "solves m (prune_pinned pv A) x b"
    and uniq: "\<forall>y. solves m (prune_pinned pv A) y b \<longrightarrow> y = x"
  shows "x ! p = b ! p"
proof -
  let ?Af = "prune_pinned pv A"
  let ?D = "filter (\<lambda>entry. (fst entry, fst (snd entry)) = (p, p)) A"
  have len: "length ?D \<le> 1"
    using ok by (intro distinct_filter_key) (simp add: sparse_ok_def)
  have row: "filter (\<lambda>entry. fst entry = p) ?Af = map (\<lambda>_. (p, p, 1)) ?D"
    by (rule prune_pinned_row[OF p(1)])
  have lx: "length x = m" using sol by (simp add: solves_def)
  show ?thesis
  proof (cases "?D = []")
    case True
    then have norow: "filter (\<lambda>entry. fst entry = p) ?Af = []" using row by simp
    have nocol: "c \<noteq> p" if "(r, c, v) \<in> set ?Af" for r c v
    proof
      assume "c = p"
      then have "r = p" using prune_pinned_entry[OF that] p(1) by simp
      then have "(r, c, v) \<in> set (filter (\<lambda>entry. fst entry = p) ?Af)" using that by simp
      then show False using norow by simp
    qed
    define y where "y = x[p := x ! p + 1]"
    have "row_times ?Af y r = row_times ?Af x r" for r
    proof (rule row_times_cong)
      fix r' c v assume "(r', c, v) \<in> set ?Af"
      then have "c \<noteq> p" by (rule nocol)
      then show "y ! c = x ! c" by (simp add: y_def)
    qed
    then have "solves m ?Af y b" using sol by (simp add: solves_def y_def)
    then have "y = x" using uniq by simp
    then have "y ! p = x ! p" by simp
    moreover have "y ! p = x ! p + 1" using p(2) lx by (simp add: y_def)
    ultimately show ?thesis by simp
  next
    case False
    then obtain e where "?D = [e]" using len by (cases ?D) auto
    then have "filter (\<lambda>entry. fst entry = p) ?Af = [(p, p, 1)]" using row by simp
    then have "row_times ?Af x p = x ! p" by (simp add: row_times_filter)
    then show ?thesis using sol p(2) by (simp add: solves_def)
  qed
qed

lemma length_move_column [simp]: "length (move_column A idx val b) = length b"
proof -
  have "length (fold (\<lambda>entry b. case entry of (r, c, value) \<Rightarrow>
             if c = idx \<and> r \<noteq> idx then b[r := b ! r - value * val] else b) A b) = length b"
    by (induction A arbitrary: b) (auto split: prod.splits)
  then show ?thesis by (simp add: move_column_def)
qed

lemma pinned_system_rhs:
  assumes "p1 \<noteq> p2" "p1 < n" "p2 < n" "pinned_system n A p1 p2 = (Af, b)"
  shows "Af = prune_pinned [p1 * 2, p1 * 2 + 1, p2 * 2, p2 * 2 + 1] A"
    and "b ! (p1 * 2) = 0" "b ! (p1 * 2 + 1) = 0" "b ! (p2 * 2) = 1" "b ! (p2 * 2 + 1) = 0"
proof -
  have up: "[0..<4] = [0, 1, 2, Suc 2]" by (simp add: upt_rec)
  have d: "p1 * 2 \<noteq> p2 * 2" "p1 * 2 \<noteq> p2 * 2 + 1" "p1 * 2 + 1 \<noteq> p2 * 2" "p1 * 2 + 1 \<noteq> p2 * 2 + 1"
    using assms(1) by presburger+
  have r: "p1 * 2 < 2 * n" "p1 * 2 + 1 < 2 * n" "p2 * 2 < 2 * n" "p2 * 2 + 1 < 2 * n"
    using assms(2,3) by simp_all
  from assms(4) show "Af = prune_pinned [p1 * 2, p1 * 2 + 1, p2 * 2, p2 * 2 + 1] A"
    by (simp add: pinned_system_def Let_def)
  from assms(4) have b: "b = fold (\<lambda>k b. b[[p1 * 2, p1 * 2 + 1, p2 * 2, p2 * 2 + 1] ! k := pinned_vals ! k]) [0..<4]
      (fold (\<lambda>k b. move_column A ([p1 * 2, p1 * 2 + 1, p2 * 2, p2 * 2 + 1] ! k) (pinned_vals ! k) b) [0..<4]
         (replicate (2 * n) 0))"
    by (simp add: pinned_system_def Let_def)
  show "b ! (p1 * 2) = 0" "b ! (p1 * 2 + 1) = 0" "b ! (p2 * 2) = 1" "b ! (p2 * 2 + 1) = 0"
    unfolding b up using d r by (simp_all add: pinned_vals_def)
qed

text \<open>
  C2: when the solve succeeds with an exact solver, the solved vector holds \<open>(0, 0)\<close> at the
  first pinned vertex and \<open>(1, 0)\<close> at the second, before the normalization.
\<close>

theorem lscm_pins_exact:
  assumes solver: "exact_solver factorize solve"
    and A: "sparse_ok (2 * card (island_vertices mesh face_indices)) (assemble mesh face_indices)"
    and x: "lscm_solve factorize solve assemble vertex_distance mesh face_indices = Some x"
  shows "x ! (fst (choose_pins vertex_distance mesh face_indices) * 2) = 0 \<and>
         x ! (fst (choose_pins vertex_distance mesh face_indices) * 2 + 1) = 0 \<and>
         x ! (snd (choose_pins vertex_distance mesh face_indices) * 2) = 1 \<and>
         x ! (snd (choose_pins vertex_distance mesh face_indices) * 2 + 1) = 0"
proof -
  let ?n = "length (snd (local_vertex_map mesh face_indices))"
  obtain p1 p2 where pins: "choose_pins vertex_distance mesh face_indices = (p1, p2)"
    by (cases "choose_pins vertex_distance mesh face_indices")
  obtain Af b where sys: "lscm_system assemble vertex_distance mesh face_indices = (Af, b)"
    by (cases "lscm_system assemble vertex_distance mesh face_indices")
  from x have n3: "3 \<le> ?n"
    by (auto simp: lscm_solve_def Let_def split: if_splits)
  from x sys n3 obtain lu where lu: "factorize (2 * ?n) Af = Some lu" "solve lu b = Some x"
    by (auto simp: lscm_solve_def Let_def split: if_splits option.splits)
  from solver lu have sol: "solves (2 * ?n) Af x b" and uniq: "\<forall>y. solves (2 * ?n) Af y b \<longrightarrow> y = x"
    unfolding exact_solver_def by blast+
  from choose_pins_ok[OF n3, of vertex_distance] pins
  have pk: "p1 \<noteq> p2" "p1 < ?n" "p2 < ?n" by (simp_all add: pins_ok_def)
  from sys pins have ps: "pinned_system ?n (assemble mesh face_indices) p1 p2 = (Af, b)"
    by (simp add: lscm_system_def)
  note rhs = pinned_system_rhs[OF pk ps]
  let ?pv = "[p1 * 2, p1 * 2 + 1, p2 * 2, p2 * 2 + 1]"
  have A': "sparse_ok (2 * ?n) (assemble mesh face_indices)" using A by (simp add: local_vertex_count)
  have each: "x ! p = b ! p" if "p \<in> set ?pv" for p
  proof -
    have "p < 2 * ?n" using that pk(2,3) by auto
    then show ?thesis
      using pinned_solution[OF A' that _ sol[unfolded rhs(1)] uniq[unfolded rhs(1)]] by simp
  qed
  have "x ! (p1 * 2) = 0" "x ! (p1 * 2 + 1) = 0" "x ! (p2 * 2) = 1" "x ! (p2 * 2 + 1) = 0"
    using each rhs(2-5) by simp_all
  then show ?thesis by (simp add: pins)
qed

lemma filter_upt_eq: "r < m \<Longrightarrow> filter (\<lambda>i. i = r) [0..<m] = [r]"
  by (induction m) (auto simp: less_Suc_eq filter_empty_conv)

lemma row_times_identity:
  assumes "r < m"
  shows "row_times (identity_entries m) x r = x ! r"
proof -
  have "filter (\<lambda>entry. fst entry = r) (identity_entries m) = map (\<lambda>i. (i, i, 1)) (filter (\<lambda>i. i = r) [0..<m])"
    by (simp add: identity_entries_def filter_map comp_def)
  then show ?thesis using assms by (simp add: row_times_filter filter_upt_eq)
qed

lemma identity_solves:
  "solves m (identity_entries m) y b = (length y = m \<and> (\<forall>r<m. y ! r = b ! r))"
  unfolding solves_def using row_times_identity by auto

lemma identity_solver_exact: "exact_solver identity_factorize identity_solve"
  unfolding exact_solver_def
proof (intro allI impI)
  fix m :: nat and A :: sparse and lu :: nat and b x :: "real list"
  assume f: "identity_factorize m A = Some lu" and s: "identity_solve lu b = Some x"
  from f have A: "A = identity_entries m" and lu: "lu = m"
    by (simp_all add: identity_factorize_def split: if_splits)
  from s have xb: "x = b" and lb: "length b = lu"
    by (simp_all add: identity_solve_def split: if_splits)
  have 1: "solves m A x b" unfolding A identity_solves xb using lb lu by simp
  have 2: "\<forall>y. solves m A y b \<longrightarrow> y = x"
  proof (intro allI impI)
    fix y assume "solves m A y b"
    then have y: "length y = m" "\<forall>r<m. y ! r = b ! r" unfolding A identity_solves by simp_all
    have "y = b"
    proof (rule nth_equalityI)
      show "length y = length b" using y(1) lb lu by simp
      fix i assume "i < length y"
      then show "y ! i = b ! i" using y by simp
    qed
    then show "y = x" using xb by simp
  qed
  from 1 2 show "solves m A x b \<and> (\<forall>y. solves m A y b \<longrightarrow> y = x)" by (rule conjI)
qed

lemma quad_pins: "choose_pins index_distance quad [0, 1] = (0, 3)"
  by code_simp

lemma quad_solved:
  "lscm_solve identity_factorize identity_solve coupled_assemble index_distance quad [0, 1]
     = Some [0, 0, - 3, 0, 0, 0, 1, 0]"
  by code_simp

lemma quad_assemble_ok:
  "sparse_ok (2 * card (island_vertices quad [0, 1])) (coupled_assemble quad [0, 1])"
proof -
  have "sparse_ok 8 (coupled_assemble quad [0, 1])" by code_simp
  then show ?thesis unfolding quad_island_card by simp
qed

theorem lscm_pins_exact_witness:
  "exact_solver identity_factorize identity_solve \<and>
   sparse_ok (2 * card (island_vertices quad [0, 1])) (coupled_assemble quad [0, 1]) \<and>
   lscm_solve identity_factorize identity_solve coupled_assemble index_distance quad [0, 1]
     = Some [0, 0, - 3, 0, 0, 0, 1, 0] \<and>
   choose_pins index_distance quad [0, 1] = (0, 3) \<and>
   [0, 0, - 3, 0, 0, 0, 1, 0 :: real] ! (fst (choose_pins index_distance quad [0, 1]) * 2) = 0 \<and>
   [0, 0, - 3, 0, 0, 0, 1, 0 :: real] ! (fst (choose_pins index_distance quad [0, 1]) * 2 + 1) = 0 \<and>
   [0, 0, - 3, 0, 0, 0, 1, 0 :: real] ! (snd (choose_pins index_distance quad [0, 1]) * 2) = 1 \<and>
   [0, 0, - 3, 0, 0, 0, 1, 0 :: real] ! (snd (choose_pins index_distance quad [0, 1]) * 2 + 1) = 0"
  using lscm_pins_exact[OF identity_solver_exact quad_assemble_ok quad_solved]
    identity_solver_exact quad_assemble_ok quad_solved quad_pins
  by blast

end
